theory Spec2Isabelle
  imports Main "HOL-Library.Word"
begin

section \<open>Strings of the source language\<close>

text \<open>
  A JavaScript string is a sequence of UTF-16 code units; \<open>length\<close> counts code units and
  the regular expressions of \<open>server.js\<close> (none has the \<open>u\<close> flag) match one code unit at a
  time. \<open>str\<close> embeds an ASCII literal.
\<close>

type_synonym cu = "16 word"

type_synonym jsstring = "cu list"

definition str :: "string \<Rightarrow> jsstring" where
  "str s = map of_char s"

text \<open>The character classes used by the patterns of \<open>server.js\<close>.\<close>

definition is_digit :: "cu \<Rightarrow> bool" where
  \<comment> \<open>\<open>\d\<close>: the ten ASCII digits only\<close>
  "is_digit c = (0x30 \<le> c \<and> c \<le> 0x39)"

definition is_space :: "cu \<Rightarrow> bool" where
  \<comment> \<open>\<open>\s\<close>: the WhiteSpace and LineTerminator code points of ECMAScript\<close>
  "is_space c = (c = 0x09 \<or> c = 0x0A \<or> c = 0x0B \<or> c = 0x0C \<or> c = 0x0D \<or> c = 0x20
      \<or> c = 0xA0 \<or> c = 0x1680 \<or> (0x2000 \<le> c \<and> c \<le> 0x200A) \<or> c = 0x2028 \<or> c = 0x2029
      \<or> c = 0x202F \<or> c = 0x205F \<or> c = 0x3000 \<or> c = 0xFEFF)"

definition is_nlcr :: "cu \<Rightarrow> bool" where
  \<comment> \<open>\<open>[\n\r]\<close>\<close>
  "is_nlcr c = (c = 0x0A \<or> c = 0x0D)"

definition is_sep :: "cu \<Rightarrow> bool" where
  \<comment> \<open>\<open>[\s\-]\<close>\<close>
  "is_sep c = (is_space c \<or> c = 0x2D)"

definition is_label_sep :: "cu \<Rightarrow> bool" where
  \<comment> \<open>\<open>[:.\s\-]\<close>\<close>
  "is_label_sep c = (c = 0x3A \<or> c = 0x2E \<or> is_space c \<or> c = 0x2D)"

definition is_colon :: "cu \<Rightarrow> bool" where
  \<comment> \<open>\<open>[:]\<close>\<close>
  "is_colon c = (c = 0x3A)"

definition not_newline :: "cu \<Rightarrow> bool" where
  \<comment> \<open>\<open>[^\n]\<close>\<close>
  "not_newline c = (c \<noteq> 0x0A)"

definition not_digit :: "cu \<Rightarrow> bool" where
  \<comment> \<open>\<open>\D\<close>\<close>
  "not_digit c = (\<not> is_digit c)"

definition ascii_upper :: "cu \<Rightarrow> cu" where
  \<comment> \<open>Canonicalize of the \<open>i\<close> flag, on the ASCII letters: a code unit from 128 on is never
      folded onto an ASCII one, so it cannot match an ASCII pattern character\<close>
  "ascii_upper c = (if 0x61 \<le> c \<and> c \<le> 0x7A then c - 0x20 else c)"

definition same_ci :: "char \<Rightarrow> cu \<Rightarrow> bool" where
  "same_ci p c = (ascii_upper c = ascii_upper (of_char p))"

section \<open>Regular expressions with backtracking\<close>

text \<open>
  The pattern language that \<open>server.js\<close> uses: character classes, sequence, alternation and
  the greedy star. \<open>bt r s\<close> lists the rests of \<open>s\<close> that a match of \<open>r\<close> at the head of
  \<open>s\<close> can leave, in the order in which the backtracking matcher of ECMAScript tries them:
  the head of the list is the match that \<open>exec\<close> reports. An iteration of the star that
  consumes nothing is rejected, as RepeatMatcher does.
\<close>

datatype regex = Eps | Chr "cu \<Rightarrow> bool" | Seq regex regex | Alt regex regex | Star regex

fun bt :: "regex \<Rightarrow> jsstring \<Rightarrow> jsstring list" where
  "bt Eps s = [s]"
| "bt (Chr p) [] = []"
| "bt (Chr p) (c # s) = (if p c then [s] else [])"
| "bt (Seq a b) s = concat (map (bt b) (bt a s))"
| "bt (Alt a b) s = bt a s @ bt b s"
| "bt (Star a) s =
     concat (map (bt (Star a)) (filter (\<lambda>t. length t < length s) (bt a s))) @ [s]"

text \<open>The quantifiers \<open>?\<close>, \<open>+\<close>, \<open>{n}\<close>, \<open>{m,n}\<close> and \<open>{m,}\<close>, all greedy.\<close>

definition Opt :: "regex \<Rightarrow> regex" where
  "Opt r = Alt r Eps"

definition Plus :: "regex \<Rightarrow> regex" where
  "Plus r = Seq r (Star r)"

primrec Rep :: "nat \<Rightarrow> regex \<Rightarrow> regex" where
  "Rep 0 r = Eps"
| "Rep (Suc n) r = Seq r (Rep n r)"

primrec UpTo :: "nat \<Rightarrow> regex \<Rightarrow> regex" where
  "UpTo 0 r = Eps"
| "UpTo (Suc n) r = Opt (Seq r (UpTo n r))"

definition RepRange :: "nat \<Rightarrow> nat \<Rightarrow> regex \<Rightarrow> regex" where
  "RepRange m n r = Seq (Rep m r) (UpTo (n - m) r)"

definition RepFrom :: "nat \<Rightarrow> regex \<Rightarrow> regex" where
  "RepFrom m r = Seq (Rep m r) (Star r)"

primrec seqs :: "regex list \<Rightarrow> regex" where
  "seqs [] = Eps"
| "seqs (r # rs) = Seq r (seqs rs)"

definition word_ci :: "string \<Rightarrow> regex" where
  \<comment> \<open>a literal word under the \<open>i\<close> flag\<close>
  "word_ci w = seqs (map (\<lambda>p. Chr (same_ci p)) w)"

text \<open>
  The same matcher with a continuation, as the ECMAScript specification writes it: \<open>mt r s k\<close>
  gives the first result of \<open>k\<close> on the rests that \<open>bt r s\<close> lists, without building the
  list. It is used to evaluate the patterns on concrete texts.
\<close>

fun first_some :: "('a \<Rightarrow> 'b option) \<Rightarrow> 'a list \<Rightarrow> 'b option" where
  "first_some k [] = None"
| "first_some k (t # ts) = (case k t of None \<Rightarrow> first_some k ts | Some x \<Rightarrow> Some x)"

fun mt :: "regex \<Rightarrow> jsstring \<Rightarrow> (jsstring \<Rightarrow> 'a option) \<Rightarrow> 'a option" where
  "mt Eps s k = k s"
| "mt (Chr p) [] k = None"
| "mt (Chr p) (c # s) k = (if p c then k s else None)"
| "mt (Seq a b) s k = mt a s (\<lambda>t. mt b t k)"
| "mt (Alt a b) s k = (case mt a s k of None \<Rightarrow> mt b s k | Some x \<Rightarrow> Some x)"
| "mt (Star a) s k =
     (case mt a s (\<lambda>t. if length t < length s then mt (Star a) t k else None) of
        None \<Rightarrow> k s
      | Some x \<Rightarrow> Some x)"

section \<open>The operations of RegExp and String that the code calls\<close>

text \<open>
  \<open>rx_exec\<close> is RegExp.exec without the \<open>g\<close> flag: the leftmost index at which the pattern
  matches, and the length of the match found first there.
\<close>

fun rx_exec :: "regex \<Rightarrow> jsstring \<Rightarrow> (nat \<times> nat) option" where
  "rx_exec r [] = (case bt r [] of [] \<Rightarrow> None | t # ts \<Rightarrow> Some (0, 0))"
| "rx_exec r (c # s) =
     (case bt r (c # s) of
        [] \<Rightarrow> map_option (\<lambda>(i, n). (Suc i, n)) (rx_exec r s)
      | t # ts \<Rightarrow> Some (0, length (c # s) - length t))"

text \<open>
  \<open>rx_test_full r s\<close> is \<open>/^r$/.test(s)\<close>: without the \<open>m\<close> flag \<open>^\<close> holds at index 0 only
  and \<open>$\<close> at the end only, so the test succeeds when some way of matching \<open>r\<close> from the
  start leaves nothing.
\<close>

definition rx_test_full :: "regex \<Rightarrow> jsstring \<Rightarrow> bool" where
  "rx_test_full r s = ([] \<in> set (bt r s))"

text \<open>
  \<open>rx_exec_group a b s\<close> is \<open>s.match(/a(b)/)\<close>: the text of capture group 1 of the first
  match, for a pattern that ends with its only group.
\<close>

definition bt2 :: "regex \<Rightarrow> regex \<Rightarrow> jsstring \<Rightarrow> (jsstring \<times> jsstring) list" where
  "bt2 a b s = concat (map (\<lambda>t. map (\<lambda>u. (t, u)) (bt b t)) (bt a s))"

fun rx_exec_group :: "regex \<Rightarrow> regex \<Rightarrow> jsstring \<Rightarrow> jsstring option" where
  "rx_exec_group a b [] =
     (case bt2 a b [] of [] \<Rightarrow> None | (t, u) # ts \<Rightarrow> Some (take (length t - length u) t))"
| "rx_exec_group a b (c # s) =
     (case bt2 a b (c # s) of [] \<Rightarrow> rx_exec_group a b s
      | (t, u) # ts \<Rightarrow> Some (take (length t - length u) t))"

text \<open>
  \<open>s.match(/r/g)\<close>: every match, each search starting where the last match ended (one code
  unit further after an empty match). The empty list stands for \<open>null\<close>.
\<close>

function rx_match_all :: "regex \<Rightarrow> jsstring \<Rightarrow> jsstring list" where
  "rx_match_all r s =
     (case rx_exec r s of
        None \<Rightarrow> []
      | Some (i, n) \<Rightarrow>
          take n (drop i s) #
            (if take n (drop i s) = []
             then (if i < length s then rx_match_all r (drop (Suc i) s) else [])
             else rx_match_all r (drop (i + n) s)))"
  by pat_completeness auto

termination
  by (relation "measure (\<lambda>(r, s). length s)") auto

text \<open>\<open>s.replace(/r/g, rep)\<close> for a replacement text without \<open>$\<close>.\<close>

function rx_replace_all :: "regex \<Rightarrow> jsstring \<Rightarrow> jsstring \<Rightarrow> jsstring" where
  "rx_replace_all r rep s =
     (case rx_exec r s of
        None \<Rightarrow> s
      | Some (i, n) \<Rightarrow>
          take i s @ rep @
            (if take n (drop i s) = []
             then (if i < length s then take 1 (drop i s) @ rx_replace_all r rep (drop (Suc i) s)
                   else [])
             else rx_replace_all r rep (drop (i + n) s)))"
  by pat_completeness auto

termination
  by (relation "measure (\<lambda>(r, rep, s). length s)") auto

text \<open>
  \<open>s.split(/r/)\<close> for a pattern without groups: the pattern is tried at each index \<open>q\<close> in
  turn; \<open>cur\<close> is the text since the end \<open>p\<close> of the last separator. A match that ends at
  \<open>p\<close> is skipped.
\<close>

function split_loop :: "regex \<Rightarrow> jsstring \<Rightarrow> jsstring \<Rightarrow> jsstring list" where
  "split_loop r cur [] = [cur]"
| "split_loop r cur (c # s) =
     (case bt r (c # s) of
        [] \<Rightarrow> split_loop r (cur @ [c]) s
      | t # ts \<Rightarrow>
          (if length (c # s) - length t = 0
           then (if cur = [] then split_loop r (cur @ [c]) s
                 else cur # split_loop r [] (c # s))
           else cur # split_loop r [] (drop (length (c # s) - length t) (c # s))))"
  by pat_completeness auto

termination
  by (relation "measures [\<lambda>(r, cur, s). length s, \<lambda>(r, cur, s). length cur]") auto

definition rx_split :: "regex \<Rightarrow> jsstring \<Rightarrow> jsstring list" where
  "rx_split r s =
     (if s = [] then (case bt r [] of [] \<Rightarrow> [[]] | t # ts \<Rightarrow> []) else split_loop r [] s)"

definition js_trim :: "jsstring \<Rightarrow> jsstring" where
  \<comment> \<open>\<open>trim\<close> removes the code points of \<open>\s\<close> from both ends\<close>
  "js_trim s = rev (dropWhile is_space (rev (dropWhile is_space s)))"

section \<open>extractNIK\<close>

text \<open>The patterns of \<open>extractNIK\<close>, in the order of the source.\<close>

definition rx_newlines :: regex where
  \<comment> \<open>\<open>/[\n\r]+/g\<close>\<close>
  "rx_newlines = Plus (Chr is_nlcr)"

definition rx_spaces :: regex where
  \<comment> \<open>\<open>/\s+/g\<close>\<close>
  "rx_spaces = Plus (Chr is_space)"

definition rx_nik_label :: regex where
  \<comment> \<open>\<open>NIK\s*[:.\s\-]*\s*\<close> under the \<open>i\<close> flag\<close>
  "rx_nik_label =
     seqs [word_ci ''NIK'', Star (Chr is_space), Star (Chr is_label_sep), Star (Chr is_space)]"

definition rx_d13 :: regex where
  \<comment> \<open>\<open>\d{1,3}\<close>\<close>
  "rx_d13 = RepRange 1 3 (Chr is_digit)"

definition rx_sep_opt :: regex where
  \<comment> \<open>\<open>[\s\-]?\<close>\<close>
  "rx_sep_opt = Opt (Chr is_sep)"

definition rx_nik_group :: regex where
  \<comment> \<open>the group: eight times \<open>\d{1,3}\<close>, with \<open>[\s\-]?\<close> between them\<close>
  "rx_nik_group =
     seqs [rx_d13, rx_sep_opt, rx_d13, rx_sep_opt, rx_d13, rx_sep_opt, rx_d13, rx_sep_opt,
           rx_d13, rx_sep_opt, rx_d13, rx_sep_opt, rx_d13, rx_sep_opt, rx_d13]"

definition rx_sep :: regex where
  \<comment> \<open>\<open>/[\s\-]/g\<close>\<close>
  "rx_sep = Chr is_sep"

definition rx_d16 :: regex where
  \<comment> \<open>\<open>\d{16}\<close> of \<open>/^\d{16}$/\<close>\<close>
  "rx_d16 = Rep 16 (Chr is_digit)"

definition rx_digit_run :: regex where
  \<comment> \<open>\<open>/(\d[\s\-]*){15,}\d/g\<close>\<close>
  "rx_digit_run = Seq (RepFrom 15 (Seq (Chr is_digit) (Star (Chr is_sep)))) (Chr is_digit)"

definition rx_non_digit :: regex where
  \<comment> \<open>\<open>/\D/g\<close>\<close>
  "rx_non_digit = Chr not_digit"

definition rx_seps :: regex where
  \<comment> \<open>\<open>/[\s\-]+/\<close>\<close>
  "rx_seps = Plus (Chr is_sep)"

definition is_nik16 :: "jsstring \<Rightarrow> bool" where
  \<comment> \<open>\<open>nik.length === 16 && /^\d{16}$/.test(nik)\<close>\<close>
  "is_nik16 nik = (length nik = 16 \<and> rx_test_full rx_d16 nik)"

definition clean_text :: "jsstring \<Rightarrow> jsstring" where
  "clean_text text =
     js_trim (rx_replace_all rx_spaces (str '' '') (rx_replace_all rx_newlines (str '' '') text))"

definition method1 :: "jsstring \<Rightarrow> jsstring option" where
  "method1 cleanText =
     (case rx_exec_group rx_nik_label rx_nik_group cleanText of
        None \<Rightarrow> None
      | Some rawNik \<Rightarrow>
          (let nik = rx_replace_all rx_sep [] rawNik
           in if is_nik16 nik then Some nik else None))"

fun method2 :: "jsstring list \<Rightarrow> jsstring option" where
  "method2 [] = None"
| "method2 (m # ms) =
     (let nik = rx_replace_all rx_non_digit [] m
      in if is_nik16 nik then Some nik
         else if length nik > 16
           then (let first16 = take 16 nik
                 in if rx_test_full rx_d16 first16 then Some first16 else method2 ms)
           else method2 ms)"

fun method3 :: "jsstring list \<Rightarrow> jsstring option" where
  "method3 [] = None"
| "method3 (word # words) =
     (let nik = rx_replace_all rx_non_digit [] word
      in if is_nik16 nik then Some nik else method3 words)"

definition extractNIK :: "jsstring \<Rightarrow> jsstring option" where
  \<comment> \<open>\<open>None\<close> is \<open>null\<close>\<close>
  "extractNIK text =
     (if text = [] then None
      else let cleanText = clean_text text
           in case method1 cleanText of
                Some nik \<Rightarrow> Some nik
              | None \<Rightarrow>
                  (case method2 (rx_match_all rx_digit_run cleanText) of
                     Some nik \<Rightarrow> Some nik
                   | None \<Rightarrow> method3 (rx_split rx_seps cleanText)))"

section \<open>extractKTPInfo\<close>

definition rx_nama_label :: regex where
  \<comment> \<open>\<open>Nama\s*[:]*\s*\<close> under the \<open>i\<close> flag\<close>
  "rx_nama_label =
     seqs [word_ci ''Nama'', Star (Chr is_space), Star (Chr is_colon), Star (Chr is_space)]"

definition rx_nama_group :: regex where
  \<comment> \<open>\<open>[^\n]+\<close>\<close>
  "rx_nama_group = Plus (Chr not_newline)"

definition rx_fields :: regex where
  \<comment> \<open>\<open>/\n|Tempat|Jenis|Gol\.|Alamat/i\<close>\<close>
  "rx_fields =
     Alt (word_ci [CHR 0x0A]) (Alt (word_ci ''Tempat'') (Alt (word_ci ''Jenis'')
       (Alt (word_ci ''Gol.'') (word_ci ''Alamat''))))"

record ktp_info =
  nama :: "jsstring option"

definition extractKTPInfo :: "jsstring \<Rightarrow> ktp_info" where
  \<comment> \<open>a field that is \<open>None\<close> is a property that the object does not have\<close>
  "extractKTPInfo text =
     (if text = [] then \<lparr>nama = None\<rparr>
      else case rx_exec_group rx_nama_label rx_nama_group text of
             None \<Rightarrow> \<lparr>nama = None\<rparr>
           | Some g \<Rightarrow>
               (let nama = js_trim g
                in \<lparr>nama = (case rx_split rx_fields nama of
                              [] \<Rightarrow> None
                            | x # xs \<Rightarrow> Some (js_trim x))\<rparr>))"

section \<open>compressImage\<close>

text \<open>
  The image library is outside the repository: \<open>sharp maxDimension quality buffer\<close> stands
  for the call \<open>sharp(buffer).resize(maxDimension, maxDimension, ...).jpeg({quality, ...})
  .toBuffer()\<close>, which gives a new buffer or throws.
\<close>

type_synonym buffer = "8 word list"

datatype error = SharpError

type_synonym encoder = "nat \<Rightarrow> int \<Rightarrow> buffer \<Rightarrow> error + buffer"

definition MAX_FILE_SIZE :: nat where
  "MAX_FILE_SIZE = 1024 * 1024"

definition COMPRESSION_QUALITY :: int where
  "COMPRESSION_QUALITY = 80"

definition MAX_DIMENSION :: nat where
  "MAX_DIMENSION = 2000"

definition maxAttempts :: nat where
  "maxAttempts = 5"

record compression =
  compressed :: buffer
  quality :: int
  maxDimension :: nat
  attempts :: nat

definition shrink :: "nat \<Rightarrow> nat" where
  \<comment> \<open>\<open>Math.floor(maxDimension * 0.9)\<close>: the double nearest to 0.9 exceeds 0.9 by less than
      \<open>3 / 10 ^ 17\<close>, so for the integers below \<open>10 ^ 5\<close> the floor of the rounded product is
      that of the exact one\<close>
  "shrink d = (d * 9) div 10"

definition loop_cond :: "compression \<Rightarrow> bool" where
  "loop_cond st = (length (compressed st) > MAX_FILE_SIZE \<and> attempts st < maxAttempts)"

definition loop_body :: "encoder \<Rightarrow> compression \<Rightarrow> error + compression" where
  "loop_body sharp st =
     (case sharp (maxDimension st) (quality st) (compressed st) of
        Inl e \<Rightarrow> Inl e
      | Inr b \<Rightarrow> Inr \<lparr>compressed = b, quality = quality st - 10,
                     maxDimension = shrink (maxDimension st), attempts = attempts st + 1\<rparr>)"

function compress_loop :: "encoder \<Rightarrow> compression \<Rightarrow> error + compression" where
  "compress_loop sharp st =
     (if loop_cond st
      then (case loop_body sharp st of Inl e \<Rightarrow> Inl e | Inr st' \<Rightarrow> compress_loop sharp st')
      else Inr st)"
  by pat_completeness auto

termination
  by (relation "measure (\<lambda>(sharp, st). maxAttempts - attempts st)")
    (auto simp: loop_cond_def loop_body_def split: sum.splits)

definition initial :: "buffer \<Rightarrow> compression" where
  "initial imageBuffer =
     \<lparr>compressed = imageBuffer, quality = COMPRESSION_QUALITY,
      maxDimension = MAX_DIMENSION, attempts = 0\<rparr>"

definition compressImage :: "encoder \<Rightarrow> buffer \<Rightarrow> buffer" where
  \<comment> \<open>the \<open>catch\<close> branch returns the buffer that was passed in\<close>
  "compressImage sharp imageBuffer =
     (case compress_loop sharp (initial imageBuffer) of
        Inl e \<Rightarrow> imageBuffer
      | Inr st \<Rightarrow> compressed st)"

text \<open>The states at the head of the loop, the first one included, up to the exit or the throw.\<close>

function loop_states :: "encoder \<Rightarrow> compression \<Rightarrow> compression list" where
  "loop_states sharp st =
     st # (if loop_cond st
           then (case loop_body sharp st of Inl e \<Rightarrow> [] | Inr st' \<Rightarrow> loop_states sharp st')
           else [])"
  by pat_completeness auto

termination
  by (relation "measure (\<lambda>(sharp, st). maxAttempts - attempts st)")
    (auto simp: loop_cond_def loop_body_def split: sum.splits)

text \<open>What one iteration does to the loop variables.\<close>

definition step_ok :: "compression \<Rightarrow> compression \<Rightarrow> bool" where
  "step_ok st st' =
     (attempts st' = attempts st + 1 \<and> quality st' = quality st - 10
      \<and> maxDimension st' = shrink (maxDimension st) \<and> maxDimension st' < maxDimension st)"

text \<open>An invariant of the loop: \<open>maxDimension\<close> loses at most 201 per iteration.\<close>

definition reachable :: "compression \<Rightarrow> bool" where
  "reachable st = (attempts st \<le> maxAttempts \<and> 2000 \<le> maxDimension st + 201 * attempts st)"

text \<open>The iteration entered at \<open>st\<close> throws: the encoder fails on the current buffer.\<close>

definition throws :: "encoder \<Rightarrow> compression \<Rightarrow> bool" where
  "throws sharp st = (loop_cond st \<and> isl (sharp (maxDimension st) (quality st) (compressed st)))"

section \<open>Properties of texts, and devices of the proofs\<close>

text \<open>
  \<open>within Q r\<close>: every character class of \<open>r\<close> lies inside \<open>Q\<close>, so a match of
  \<open>r\<close> consists of code units that satisfy \<open>Q\<close>. \<open>least D r\<close> is a lower bound for the
  number of code units satisfying \<open>D\<close> in a match of \<open>r\<close>.
\<close>

fun within :: "(cu \<Rightarrow> bool) \<Rightarrow> regex \<Rightarrow> bool" where
  "within Q Eps = True"
| "within Q (Chr p) = (\<forall>c. p c \<longrightarrow> Q c)"
| "within Q (Seq a b) = (within Q a \<and> within Q b)"
| "within Q (Alt a b) = (within Q a \<and> within Q b)"
| "within Q (Star a) = within Q a"

fun least :: "(cu \<Rightarrow> bool) \<Rightarrow> regex \<Rightarrow> nat" where
  "least D Eps = 0"
| "least D (Chr p) = (if \<forall>c. p c \<longrightarrow> D c then 1 else 0)"
| "least D (Seq a b) = least D a + least D b"
| "least D (Alt a b) = min (least D a) (least D b)"
| "least D (Star a) = 0"

text \<open>
  What \<open>s.replace(/[p]+/g, rep)\<close> computes: each maximal run of code units of the class
  \<open>p\<close> becomes \<open>rep\<close>.
\<close>

function squeeze :: "(cu \<Rightarrow> bool) \<Rightarrow> jsstring \<Rightarrow> jsstring \<Rightarrow> jsstring" where
  "squeeze p rep [] = []"
| "squeeze p rep (c # s) =
     (if p c then rep @ squeeze p rep (dropWhile p s) else c # squeeze p rep s)"
  by pat_completeness auto

termination
  by (relation "measure (\<lambda>(p, rep, s). length s)") (auto simp: less_Suc_eq_le length_dropWhile_le)

text \<open>
  \<open>has_run n s\<close>: somewhere in \<open>s\<close> there are \<open>n\<close> digits with nothing but white space and
  dash characters, in any number, between them; \<open>run_from n s\<close> is such a run at the head.
\<close>

fun run_from :: "nat \<Rightarrow> jsstring \<Rightarrow> bool" where
  "run_from 0 s = True"
| "run_from (Suc k) [] = False"
| "run_from (Suc k) (c # s) =
     (if is_digit c then run_from k s else if is_sep c then run_from (Suc k) s else False)"

fun has_run :: "nat \<Rightarrow> jsstring \<Rightarrow> bool" where
  "has_run n [] = run_from n []"
| "has_run n (c # s) = (run_from n (c # s) \<or> has_run n s)"

text \<open>
  \<open>tok16 0 s\<close>: some token of \<open>s\<close>, the tokens being delimited by white space and dashes,
  holds exactly 16 digits; the first argument counts the digits of the token being read.
\<close>

fun tok16 :: "nat \<Rightarrow> jsstring \<Rightarrow> bool" where
  "tok16 k [] = (k = 16)"
| "tok16 k (c # s) =
     (if is_sep c then (k = 16 \<or> tok16 0 s) else tok16 (if is_digit c then Suc k else k) s)"

text \<open>What \<open>s.split(/[p]+/)\<close> computes, \<open>cur\<close> being the piece that is open.\<close>

function words :: "(cu \<Rightarrow> bool) \<Rightarrow> jsstring \<Rightarrow> jsstring \<Rightarrow> jsstring list" where
  "words p cur [] = [cur]"
| "words p cur (c # s) =
     (if p c then cur # words p [] (dropWhile p s) else words p (cur @ [c]) s)"
  by pat_completeness auto

termination
  by (relation "measure (\<lambda>(p, cur, s). length s)") (auto simp: less_Suc_eq_le length_dropWhile_le)

text \<open>\<open>has_nik s\<close>: the letters N, I, K, each in either case, occur in a row in \<open>s\<close>.\<close>

fun has_nik :: "jsstring \<Rightarrow> bool" where
  "has_nik (a # b # c # s) =
     ((same_ci CHR ''N'' a \<and> same_ci CHR ''I'' b \<and> same_ci CHR ''K'' c) \<or> has_nik (b # c # s))"
| "has_nik s = False"

text \<open>The repeated part \<open>\d[\s\-]*\<close> of the run pattern.\<close>

definition rx_unit :: regex where
  "rx_unit = Seq (Chr is_digit) (Star (Chr is_sep))"

text \<open>\<open>no_digit_head s\<close>: \<open>s\<close> is empty or begins with a code unit that is no digit.\<close>

definition no_digit_head :: "jsstring \<Rightarrow> bool" where
  "no_digit_head s = (case s of [] \<Rightarrow> True | c # t \<Rightarrow> \<not> is_digit c)"

text \<open>
  \<open>closes s\<close>: \<open>s\<close> begins neither with a digit nor with one separator and a digit, so
  that a capture of the group pattern that ends before \<open>s\<close> cannot be made longer.
\<close>

definition closes :: "jsstring \<Rightarrow> bool" where
  "closes s = (case s of [] \<Rightarrow> True
     | c # t \<Rightarrow> \<not> is_digit c \<and> (is_sep c \<longrightarrow> (case t of [] \<Rightarrow> True | c' # t' \<Rightarrow> \<not> is_digit c')))"

text \<open>
  \<open>ends_number s\<close>: a number that stands before \<open>s\<close> ends there, also after the
  cleaning. \<open>s\<close> is empty, or begins with white space that no digit follows, or with a
  dash that no digit follows, or with another code unit that is no digit.
\<close>

definition ends_number :: "jsstring \<Rightarrow> bool" where
  "ends_number s = (case s of [] \<Rightarrow> True
     | c # t \<Rightarrow> \<not> is_digit c
         \<and> (if is_space c then no_digit_head (dropWhile is_space t)
            else if c = 0x2D then no_digit_head t else True))"

text \<open>
  \<open>label_found s\<close>: in the text \<open>s\<close>, once cleaned, the pattern of method 1 has a match, a
  label with a number of at least 8 digits after it.
\<close>

definition label_found :: "jsstring \<Rightarrow> bool" where
  "label_found s = (rx_exec_group rx_nik_label rx_nik_group (clean_text s) \<noteq> None)"

text \<open>The part \<open>\s*[:.\s\-]*\s*\<close> of the label pattern.\<close>

definition rx_label_seps :: regex where
  "rx_label_seps = seqs [Star (Chr is_space), Star (Chr is_label_sep), Star (Chr is_space)]"

section \<open>Evaluating the matcher\<close>

declare bt.simps(6) [simp del] mt.simps(4,5,6) [simp del]

declare rx_exec.simps [simp del] rx_exec_group.simps [simp del] split_loop.simps(2) [simp del]

declare rx_match_all.simps [simp del] rx_replace_all.simps [simp del]

declare compress_loop.simps [simp del] loop_states.simps [simp del]

lemma first_some_append: "first_some k (xs @ ys) = (case first_some k xs of None \<Rightarrow> first_some k ys | Some x \<Rightarrow> Some x)"
  by (induction xs) (auto split: option.splits)

lemma first_some_concat: "first_some k (concat xss) = first_some (\<lambda>xs. first_some k xs) xss"
  by (induction xss) (auto simp: first_some_append split: option.splits)

lemma first_some_cong: "(\<And>x. x \<in> set xs \<Longrightarrow> f x = g x) \<Longrightarrow> first_some f xs = first_some g xs"
  by (induction xs) (auto split: option.splits)

lemma first_some_map: "first_some k (map f xs) = first_some (\<lambda>x. k (f x)) xs"
  by (induction xs) (auto split: option.splits)

lemma first_some_filter: "first_some k (filter P xs) = first_some (\<lambda>x. if P x then k x else None) xs"
  by (induction xs) (auto split: option.splits)

lemma first_some_single:
  "(case F of None \<Rightarrow> first_some k [s] | Some x \<Rightarrow> Some x) = (case F of None \<Rightarrow> k s | Some x \<Rightarrow> Some x)"
  by (cases F; cases "k s"; simp)

lemma mt_bt: "mt r s k = first_some k (bt r s)"
proof (induction r s arbitrary: k rule: bt.induct)
  case (4 a b s)
  have "mt (Seq a b) s k = first_some (\<lambda>t. mt b t k) (bt a s)"
    by (simp add: "4.IH"(1) mt.simps)
  also have "\<dots> = first_some (\<lambda>t. first_some k (bt b t)) (bt a s)"
    by (rule first_some_cong) (simp add: "4.IH"(2))
  finally show ?case
    by (simp add: first_some_concat first_some_map)
next
  case (6 a s)
  have "mt a s (\<lambda>t. if length t < length s then mt (Star a) t k else None)
      = first_some (\<lambda>t. if length t < length s then mt (Star a) t k else None) (bt a s)"
    by (rule "6.IH"(1))
  also have "\<dots> = first_some (\<lambda>t. mt (Star a) t k) (filter (\<lambda>t. length t < length s) (bt a s))"
    by (simp only: first_some_filter)
  also have "\<dots> = first_some (\<lambda>t. first_some k (bt (Star a) t)) (filter (\<lambda>t. length t < length s) (bt a s))"
    by (rule first_some_cong) (simp only: "6.IH"(2))
  finally have eq: "mt a s (\<lambda>t. if length t < length s then mt (Star a) t k else None)
      = first_some (\<lambda>t. first_some k (bt (Star a) t)) (filter (\<lambda>t. length t < length s) (bt a s))" .
  let ?F = "first_some (\<lambda>t. first_some k (bt (Star a) t)) (filter (\<lambda>t. length t < length s) (bt a s))"
  have lhs: "mt (Star a) s k = (case ?F of None \<Rightarrow> k s | Some x \<Rightarrow> Some x)"
    by (subst mt.simps(6)) (simp only: eq)
  have rhs: "first_some k (bt (Star a) s) = (case ?F of None \<Rightarrow> first_some k [s] | Some x \<Rightarrow> Some x)"
    by (subst bt.simps(6)) (simp only: first_some_append first_some_concat first_some_map)
  show ?case
    by (simp only: lhs rhs first_some_single)
qed (auto simp: first_some_append mt.simps split: option.splits)

lemma bt_case_mt: "(case bt r s of [] \<Rightarrow> A | t # ts \<Rightarrow> B t) = (case mt r s Some of None \<Rightarrow> A | Some t \<Rightarrow> B t)"
  by (cases "bt r s") (simp_all add: mt_bt)

lemma rx_exec_mt:
  "rx_exec r [] = (case mt r [] Some of None \<Rightarrow> None | Some t \<Rightarrow> Some (0, 0))"
  "rx_exec r (c # s) = (case mt r (c # s) Some of None \<Rightarrow> map_option (\<lambda>(i, n). (Suc i, n)) (rx_exec r s)
      | Some t \<Rightarrow> Some (0, length (c # s) - length t))"
  by (simp_all only: rx_exec.simps bt_case_mt)

lemma first_some_test: "(x \<in> set xs) = (first_some (\<lambda>t. if t = x then Some () else None) xs \<noteq> None)"
  by (induction xs) auto

lemma rx_test_full_mt: "rx_test_full r s = (mt r s (\<lambda>t. if t = [] then Some () else None) \<noteq> None)"
  by (simp only: rx_test_full_def mt_bt first_some_test[symmetric])

lemma bt2_case_mt: "(case bt2 a b s of [] \<Rightarrow> A | (t, u) # ts \<Rightarrow> B t u)
   = (case mt a s (\<lambda>t. mt b t (\<lambda>u. Some (t, u))) of None \<Rightarrow> A | Some (t, u) \<Rightarrow> B t u)"
proof -
  have "mt a s (\<lambda>t. mt b t (\<lambda>u. Some (t, u))) = first_some Some (bt2 a b s)"
    by (simp add: mt_bt bt2_def first_some_concat first_some_map)
  then show ?thesis by (cases "bt2 a b s") auto
qed

lemma rx_exec_group_mt:
  "rx_exec_group a b [] = (case mt a [] (\<lambda>t. mt b t (\<lambda>u. Some (t, u))) of None \<Rightarrow> None
      | Some (t, u) \<Rightarrow> Some (take (length t - length u) t))"
  "rx_exec_group a b (c # s) = (case mt a (c # s) (\<lambda>t. mt b t (\<lambda>u. Some (t, u))) of None \<Rightarrow> rx_exec_group a b s
      | Some (t, u) \<Rightarrow> Some (take (length t - length u) t))"
  by (simp_all only: rx_exec_group.simps bt2_case_mt)

lemma split_loop_mt:
  "split_loop r cur [] = [cur]"
  "split_loop r cur (c # s) =
     (case mt r (c # s) Some of
        None \<Rightarrow> split_loop r (cur @ [c]) s
      | Some t \<Rightarrow>
          (if length (c # s) - length t = 0
           then (if cur = [] then split_loop r (cur @ [c]) s
                 else cur # split_loop r [] (c # s))
           else cur # split_loop r [] (drop (length (c # s) - length t) (c # s))))"
  by (simp, subst split_loop.simps, simp only: bt_case_mt)

lemma rx_split_mt: "rx_split r s =
     (if s = [] then (case mt r [] Some of None \<Rightarrow> [[]] | Some t \<Rightarrow> []) else split_loop r [] s)"
  by (simp only: rx_split_def bt_case_mt)

lemma mt_eval:
  "mt Eps s k = k s"
  "mt (Chr p) [] k = None"
  "mt (Chr p) (c # s) k = (if p c then k s else None)"
  "mt (Seq a b) [] k = mt a [] (\<lambda>t. mt b t k)"
  "mt (Seq a b) (c # s) k = mt a (c # s) (\<lambda>t. mt b t k)"
  "mt (Alt a b) [] k = (case mt a [] k of None \<Rightarrow> mt b [] k | Some x \<Rightarrow> Some x)"
  "mt (Alt a b) (c # s) k = (case mt a (c # s) k of None \<Rightarrow> mt b (c # s) k | Some x \<Rightarrow> Some x)"
  "mt (Star a) [] k =
     (case mt a [] (\<lambda>t. if length t < length ([] :: jsstring) then mt (Star a) t k else None) of
        None \<Rightarrow> k [] | Some x \<Rightarrow> Some x)"
  "mt (Star a) (c # s) k =
     (case mt a (c # s) (\<lambda>t. if length t < length (c # s) then mt (Star a) t k else None) of
        None \<Rightarrow> k (c # s) | Some x \<Rightarrow> Some x)"
  by (simp_all add: mt.simps)

lemma Rep_numeral: "Rep (numeral k) r = Seq r (Rep (pred_numeral k) r)"
  by (simp add: numeral_eq_Suc)

lemma UpTo_numeral: "UpTo (numeral k) r = Opt (Seq r (UpTo (pred_numeral k) r))"
  by (simp add: numeral_eq_Suc)

lemmas ev = str_def is_digit_def is_space_def is_nlcr_def is_sep_def is_label_sep_def
  is_colon_def not_newline_def not_digit_def ascii_upper_def same_ci_def Opt_def Plus_def
  RepRange_def RepFrom_def word_ci_def rx_newlines_def rx_spaces_def rx_nik_label_def rx_d13_def
  rx_sep_opt_def rx_nik_group_def rx_sep_def rx_d16_def rx_digit_run_def rx_non_digit_def
  rx_seps_def is_nik16_def clean_text_def method1_def extractNIK_def js_trim_def
  rx_nama_label_def rx_nama_group_def rx_fields_def extractKTPInfo_def
  rx_exec_mt rx_test_full_mt rx_exec_group_mt split_loop_mt rx_split_mt
  rx_match_all.simps rx_replace_all.simps mt_eval Rep_numeral UpTo_numeral Let_def

section \<open>The compression loop\<close>

lemma reachable_initial: "reachable (initial buf)"
  by (simp add: reachable_def initial_def maxAttempts_def MAX_DIMENSION_def)

lemma loop_body_step:
  assumes "reachable st" "loop_cond st" "loop_body sharp st = Inr st'"
  shows "step_ok st st' \<and> reachable st'"
  using assms
  by (auto simp: loop_body_def step_ok_def reachable_def loop_cond_def shrink_def maxAttempts_def
      split: sum.splits)

lemma loop_states_hd: "\<exists>rest. loop_states sharp st = st # rest"
  by (subst loop_states.simps) simp

lemma loop_states_chain:
  "reachable st \<Longrightarrow> successively step_ok (loop_states sharp st)"
proof (induction sharp st rule: loop_states.induct)
  case (1 sharp st)
  show ?case
  proof (cases "loop_cond st")
    case False
    then show ?thesis by (subst loop_states.simps) simp
  next
    case True
    show ?thesis
    proof (cases "loop_body sharp st")
      case (Inl e)
      with True show ?thesis by (subst loop_states.simps) simp
    next
      case (Inr st')
      from loop_body_step[OF "1.prems" True Inr] have ok: "step_ok st st'" and r: "reachable st'"
        by simp_all
      obtain rest where rest: "loop_states sharp st' = st' # rest"
        using loop_states_hd by blast
      have "successively step_ok (loop_states sharp st')"
        using "1.IH"[OF True Inr r] .
      with ok rest True Inr show ?thesis
        by (subst loop_states.simps) simp
    qed
  qed
qed

lemma loop_states_count:
  "attempts st \<le> maxAttempts \<Longrightarrow>
     length (filter loop_cond (loop_states sharp st)) + attempts st \<le> maxAttempts"
proof (induction sharp st rule: loop_states.induct)
  case (1 sharp st)
  show ?case
  proof (cases "loop_cond st")
    case False
    with "1.prems" show ?thesis by (subst loop_states.simps) simp
  next
    case True
    show ?thesis
    proof (cases "loop_body sharp st")
      case (Inl e)
      with True show ?thesis
        by (subst loop_states.simps) (simp add: loop_cond_def)
    next
      case (Inr st')
      then have a: "attempts st' = attempts st + 1"
        by (auto simp: loop_body_def split: sum.splits)
      with True have "attempts st' \<le> maxAttempts" by (simp add: loop_cond_def)
      from "1.IH"[OF True Inr this] a True Inr show ?thesis
        by (subst loop_states.simps) simp
    qed
  qed
qed

lemma compress_loop_last:
  "compress_loop sharp st = Inr st' \<Longrightarrow> st' = last (loop_states sharp st) \<and> \<not> loop_cond st'"
proof (induction sharp st rule: compress_loop.induct)
  case (1 sharp st)
  show ?case
  proof (cases "loop_cond st")
    case False
    with "1.prems" show ?thesis
      by (subst loop_states.simps) (simp add: compress_loop.simps)
  next
    case True
    show ?thesis
    proof (cases "loop_body sharp st")
      case (Inl e)
      with True "1.prems" show ?thesis by (simp add: compress_loop.simps)
    next
      case (Inr s1)
      with True "1.prems" have "compress_loop sharp s1 = Inr st'"
        by (simp add: compress_loop.simps)
      from "1.IH"[OF True Inr this] True Inr loop_states_hd[of sharp s1] show ?thesis
        by (subst loop_states.simps) auto
    qed
  qed
qed

lemma throws_body: "throws sharp st \<Longrightarrow> isl (loop_body sharp st)"
  by (auto simp: throws_def loop_body_def split: sum.splits)

lemma compress_loop_fail:
  "list_ex (throws sharp) (loop_states sharp st0) \<Longrightarrow> isl (compress_loop sharp st0)"
proof (induction sharp st0 rule: loop_states.induct)
  case (1 sharp st0)
  show ?case
  proof (cases "throws sharp st0")
    case True
    then have "loop_cond st0" "isl (loop_body sharp st0)"
      using throws_body by (simp_all add: throws_def)
    then show ?thesis
      by (subst compress_loop.simps) (auto split: sum.splits)
  next
    case False
    with "1.prems" have c: "loop_cond st0"
      by (subst (asm) loop_states.simps) (auto split: if_splits)
    from False "1.prems" c obtain s1 where b: "loop_body sharp st0 = Inr s1"
      and m: "list_ex (throws sharp) (loop_states sharp s1)"
      by (subst (asm) loop_states.simps) (auto split: sum.splits)
    from "1.IH"[OF c b m] c b show ?thesis
      by (subst compress_loop.simps) simp
  qed
qed

lemma compress_loop_total_attempts:
  "attempts st \<le> maxAttempts \<Longrightarrow> compress_loop sharp st = Inr st' \<Longrightarrow> attempts st' \<le> maxAttempts"
proof (induction sharp st rule: compress_loop.induct)
  case (1 sharp st)
  show ?case
  proof (cases "loop_cond st")
    case False
    with "1.prems" show ?thesis by (simp add: compress_loop.simps)
  next
    case True
    show ?thesis
    proof (cases "loop_body sharp st")
      case (Inl e)
      with True "1.prems" show ?thesis by (simp add: compress_loop.simps)
    next
      case (Inr s1)
      then have a: "attempts s1 = attempts st + 1"
        by (auto simp: loop_body_def split: sum.splits)
      with True have le: "attempts s1 \<le> maxAttempts" by (simp add: loop_cond_def)
      from True Inr "1.prems" have "compress_loop sharp s1 = Inr st'"
        by (simp add: compress_loop.simps)
      from "1.IH"[OF True Inr le this] show ?thesis .
    qed
  qed
qed

lemma compress_loop_exit:
  "compress_loop sharp st = Inr st' \<Longrightarrow> \<not> loop_cond st'"
  using compress_loop_last by blast

lemmas loop_ev = compress_loop.simps loop_states.simps loop_cond_def loop_body_def initial_def
  MAX_FILE_SIZE_def COMPRESSION_QUALITY_def MAX_DIMENSION_def maxAttempts_def shrink_def
  compressImage_def

section \<open>What a match consists of\<close>

lemma bt_Star_mem:
  "t \<in> set (bt (Star a) s) \<longleftrightarrow>
     t = s \<or> (\<exists>u \<in> set (bt a s). length u < length s \<and> t \<in> set (bt (Star a) u))"
  by (subst bt.simps(6)) auto

lemma bt_sound:
  "t \<in> set (bt r s) \<Longrightarrow> within Q r \<Longrightarrow>
     \<exists>w. s = w @ t \<and> list_all Q w \<and> least D r \<le> length (filter D w)"
proof (induction r s arbitrary: t rule: bt.induct)
  case (1 s)
  then show ?case by simp
next
  case (2 p)
  then show ?case by simp
next
  case (3 p c s)
  then show ?case by (auto split: if_splits intro!: exI[of _ "[c]"])
next
  case (4 a b s)
  from "4.prems" obtain u where u: "u \<in> set (bt a s)" and t: "t \<in> set (bt b u)"
    by auto
  from "4.IH"(1)[OF u] "4.prems"(2) obtain w1 where w1: "s = w1 @ u" "list_all Q w1"
    "least D a \<le> length (filter D w1)" by auto
  from "4.IH"(2)[OF u t] "4.prems"(2) obtain w2 where w2: "u = w2 @ t" "list_all Q w2"
    "least D b \<le> length (filter D w2)" by auto
  from w1 w2 show ?case
    by (intro exI[of _ "w1 @ w2"]) auto
next
  case (5 a b s)
  from "5.prems" consider "t \<in> set (bt a s)" | "t \<in> set (bt b s)" by auto
  then show ?case
  proof cases
    case 1
    from "5.IH"(1)[OF 1] "5.prems"(2) show ?thesis by auto
  next
    case 2
    from "5.IH"(2)[OF 2] "5.prems"(2) show ?thesis by auto
  qed
next
  case (6 a s)
  from "6.prems"(1) consider "t = s"
    | u where "u \<in> set (bt a s)" "length u < length s" "t \<in> set (bt (Star a) u)"
    using bt_Star_mem[of t a s] by auto
  then show ?case
  proof cases
    case 1
    then show ?thesis by simp
  next
    case 2
    from "6.IH"(1)[OF 2(1)] "6.prems"(2) obtain w1 where w1: "s = w1 @ u" "list_all Q w1"
      by auto
    from 2 have "u \<in> set (filter (\<lambda>t. length t < length s) (bt a s))" by simp
    from "6.IH"(2)[OF this 2(3)] "6.prems"(2) obtain w2 where w2: "u = w2 @ t" "list_all Q w2"
      by auto
    from w1 w2 show ?thesis
      by (intro exI[of _ "w1 @ w2"]) auto
  qed
qed

lemma bt_suffix: "t \<in> set (bt r s) \<Longrightarrow> \<exists>w. s = w @ t"
proof -
  assume "t \<in> set (bt r s)"
  moreover have "within (\<lambda>c. True) r" by (induction r) auto
  ultimately show ?thesis using bt_sound[of t r s "\<lambda>c. True" "\<lambda>c. True"] by blast
qed

lemma bt_length: "t \<in> set (bt r s) \<Longrightarrow> length t \<le> length s"
  using bt_suffix by fastforce

lemma within_Rep: "within Q r \<Longrightarrow> within Q (Rep n r)"
  by (induction n) auto

lemma rx_test_full_d16: "rx_test_full rx_d16 s \<Longrightarrow> list_all is_digit s"
proof -
  assume "rx_test_full rx_d16 s"
  then have "[] \<in> set (bt rx_d16 s)" by (simp add: rx_test_full_def)
  moreover have "within is_digit rx_d16" by (simp add: rx_d16_def within_Rep)
  ultimately show ?thesis using bt_sound[of "[]" rx_d16 s is_digit is_digit] by auto
qed

lemma bt_Rep_digits:
  "list_all p w \<Longrightarrow> length w = n \<Longrightarrow> bt (Rep n (Chr p)) (w @ t) = [t]"
  by (induction n arbitrary: w) (auto simp: length_Suc_conv)

lemma is_nik16_iff: "is_nik16 s \<longleftrightarrow> length s = 16 \<and> list_all is_digit s"
proof
  assume "is_nik16 s"
  then show "length s = 16 \<and> list_all is_digit s"
    using rx_test_full_d16 by (simp add: is_nik16_def)
next
  assume a: "length s = 16 \<and> list_all is_digit s"
  then have "bt (Rep 16 (Chr is_digit)) (s @ []) = [[]]"
    by (intro bt_Rep_digits) auto
  with a show "is_nik16 s"
    by (simp add: is_nik16_def rx_test_full_def rx_d16_def)
qed

section \<open>Facts about exec\<close>

lemma rx_exec_Some:
  "rx_exec r s = Some (i, n) \<Longrightarrow>
     i \<le> length s \<and> (\<exists>t ts. bt r (drop i s) = t # ts \<and> n = length (drop i s) - length t)"
proof (induction s arbitrary: i)
  case Nil
  then show ?case by (auto simp: rx_exec.simps split: list.splits)
next
  case (Cons c s)
  show ?case
  proof (cases "bt r (c # s)")
    case Nil
    with Cons.prems obtain j where j: "rx_exec r s = Some (j, n)" "i = Suc j"
      by (auto simp: rx_exec.simps)
    from Cons.IH[OF j(1)] j(2) show ?thesis by simp
  next
    case (Cons t ts)
    with Cons.prems show ?thesis by (auto simp: rx_exec.simps)
  qed
qed

lemma rx_exec_None: "rx_exec r s = None \<Longrightarrow> i \<le> length s \<Longrightarrow> bt r (drop i s) = []"
proof (induction s arbitrary: i)
  case Nil
  then show ?case by (auto simp: rx_exec.simps split: list.splits)
next
  case (Cons c s)
  then show ?case
    by (cases i) (auto simp: rx_exec.simps split: list.splits)
qed

lemma rx_exec_skip:
  "bt r (c # s) = [] \<Longrightarrow> rx_exec r (c # s) = map_option (\<lambda>(i, n). (Suc i, n)) (rx_exec r s)"
  by (simp add: rx_exec.simps)

lemma rx_exec_here:
  "bt r s = t # ts \<Longrightarrow> rx_exec r s = Some (0, length s - length t)"
  by (cases s) (auto simp: rx_exec.simps)

lemma rx_exec_group_Some:
  "rx_exec_group a b s = Some g \<Longrightarrow>
     \<exists>i t u. i \<le> length s \<and> t \<in> set (bt a (drop i s)) \<and> u \<in> set (bt b t)
        \<and> g = take (length t - length u) t"
proof (induction s)
  case Nil
  then obtain t u ts where "bt2 a b [] = (t, u) # ts" "g = take (length t - length u) t"
    by (auto simp: rx_exec_group.simps split: list.splits)
  then have "(t, u) \<in> set (bt2 a b [])" by simp
  then have "t \<in> set (bt a []) \<and> u \<in> set (bt b t)" by (auto simp: bt2_def)
  with \<open>g = _\<close> show ?case by (intro exI[of _ 0]) auto
next
  case (Cons c s)
  show ?case
  proof (cases "bt2 a b (c # s)")
    case Nil
    with Cons.prems have "rx_exec_group a b s = Some g" by (simp add: rx_exec_group.simps)
    from Cons.IH[OF this] obtain i t u where "i \<le> length s" "t \<in> set (bt a (drop i s))"
      "u \<in> set (bt b t)" "g = take (length t - length u) t" by blast
    then show ?thesis by (intro exI[of _ "Suc i"]) auto
  next
    case (Cons x xs)
    obtain t u where x: "x = (t, u)" by (cases x)
    with Cons Cons.prems have g: "g = take (length t - length u) t"
      by (simp add: rx_exec_group.simps)
    from Cons x have "(t, u) \<in> set (bt2 a b (c # s))" by simp
    then have "t \<in> set (bt a (c # s)) \<and> u \<in> set (bt b t)" by (auto simp: bt2_def)
    with g show ?thesis by (intro exI[of _ 0]) auto
  qed
qed

lemma rx_exec_group_within:
  assumes "rx_exec_group a b s = Some g" "within Q b"
  shows "list_all Q g \<and> least D b \<le> length (filter D g)"
proof -
  from rx_exec_group_Some[OF assms(1)] obtain i t u where
    u: "u \<in> set (bt b t)" and g: "g = take (length t - length u) t" by blast
  from bt_sound[OF u assms(2), of D] obtain w where "t = w @ u" "list_all Q w"
    "least D b \<le> length (filter D w)" by blast
  with g show ?thesis by simp
qed

section \<open>Replacing single characters\<close>

lemma bt_Chr: "bt (Chr p) s = (case s of [] \<Rightarrow> [] | c # s' \<Rightarrow> if p c then [s'] else [])"
  by (cases s) auto

lemma rx_replace_all_Chr: "rx_replace_all (Chr p) [] s = filter (\<lambda>c. \<not> p c) s"
proof (induction s rule: length_induct)
  case (1 s)
  show ?case
  proof (cases s)
    case Nil
    then show ?thesis by (subst rx_replace_all.simps) (simp add: rx_exec.simps)
  next
    case (Cons c s')
    show ?thesis
    proof (cases "p c")
      case True
      with Cons have e: "rx_exec (Chr p) s = Some (0, 1)" by (simp add: rx_exec.simps)
      from 1 Cons have "rx_replace_all (Chr p) [] s' = filter (\<lambda>c. \<not> p c) s'" by simp
      with e Cons True show ?thesis by (subst rx_replace_all.simps) simp
    next
      case False
      from 1 Cons have ih: "rx_replace_all (Chr p) [] s' = filter (\<lambda>c. \<not> p c) s'" by simp
      from False Cons have e: "rx_exec (Chr p) s = map_option (\<lambda>(i, n). (Suc i, n)) (rx_exec (Chr p) s')"
        by (simp add: rx_exec.simps)
      show ?thesis
      proof (cases "rx_exec (Chr p) s'")
        case None
        with e have "rx_replace_all (Chr p) [] s = s" by (subst rx_replace_all.simps) simp
        moreover from None have "rx_replace_all (Chr p) [] s' = s'"
          by (subst rx_replace_all.simps) simp
        ultimately show ?thesis using ih Cons False by simp
      next
        case (Some a)
        obtain i n where a: "a = (i, n)" by (cases a)
        from rx_exec_Some[OF Some[unfolded a]] obtain t ts where
          t: "bt (Chr p) (drop i s') = t # ts" "n = length (drop i s') - length t" by auto
        then obtain x where d: "drop i s' = x # t"
          by (auto simp: bt_Chr split: list.splits if_splits)
        then have "length (drop i s') = Suc (length t)" by simp
        with t(2) have n: "n = 1" "i < length s'" by auto
        have l: "rx_replace_all (Chr p) [] s = c # take i s' @ rx_replace_all (Chr p) [] (drop (Suc i) s')"
          using e Some a n Cons by (subst rx_replace_all.simps) simp
        have r: "rx_replace_all (Chr p) [] s' = take i s' @ rx_replace_all (Chr p) [] (drop (Suc i) s')"
          using Some a n by (subst rx_replace_all.simps) simp
        from l r ih Cons False show ?thesis by simp
      qed
    qed
  qed
qed

lemma strip_seps: "rx_replace_all rx_sep [] s = filter (\<lambda>c. \<not> is_sep c) s"
  by (simp add: rx_sep_def rx_replace_all_Chr)

lemma strip_non_digits: "rx_replace_all rx_non_digit [] s = filter is_digit s"
  by (simp add: rx_non_digit_def rx_replace_all_Chr not_digit_def)

section \<open>What the three methods can return\<close>

lemma method1_nik16: "method1 c = Some nik \<Longrightarrow> is_nik16 nik"
  by (auto simp: method1_def Let_def split: option.splits if_splits)

lemma method2_nik16: "method2 ms = Some nik \<Longrightarrow> length nik = 16 \<and> list_all is_digit nik"
proof (induction ms)
  case Nil
  then show ?case by simp
next
  case (Cons m ms)
  then show ?case
    by (auto simp: Let_def is_nik16_iff split: if_splits dest: rx_test_full_d16)
qed

lemma method3_nik16: "method3 ws = Some nik \<Longrightarrow> is_nik16 nik"
  by (induction ws) (auto simp: Let_def split: if_splits)

section \<open>Character classes\<close>

lemma digit_not_space: "is_digit c \<Longrightarrow> \<not> is_space c"
  unfolding is_digit_def is_space_def by (auto simp: word_le_nat_alt)

lemma digit_not_sep: "is_digit c \<Longrightarrow> \<not> is_sep c"
  using digit_not_space[of c] unfolding is_sep_def is_digit_def by (auto simp: word_le_nat_alt)

lemma nlcr_space: "is_nlcr c \<Longrightarrow> is_space c"
  by (auto simp: is_nlcr_def is_space_def)

lemma space_sep: "is_space c \<Longrightarrow> is_sep c"
  by (simp add: is_sep_def)

lemma sp_space: "is_space 0x20"
  by (simp add: is_space_def)

section \<open>The capture of the labeled match, and collapsing runs\<close>

lemma within_nik_group: "within (\<lambda>c. is_digit c \<or> is_sep c) rx_nik_group"
  by (simp add: rx_nik_group_def rx_d13_def rx_sep_opt_def RepRange_def Opt_def
      Rep_numeral UpTo_numeral)

lemma digits_of_run:
  "list_all (\<lambda>c. is_digit c \<or> is_sep c) w \<Longrightarrow> filter (\<lambda>c. \<not> is_sep c) w = filter is_digit w"
  by (induction w) (auto dest: digit_not_sep)

lemma method1_capture:
  assumes "rx_exec_group rx_nik_label rx_nik_group c = Some rawNik"
  shows "method1 c = (if length (filter is_digit rawNik) = 16 then Some (filter is_digit rawNik) else None)"
proof -
  from rx_exec_group_within[OF assms within_nik_group]
  have "list_all (\<lambda>c. is_digit c \<or> is_sep c) rawNik" by simp
  then have "rx_replace_all rx_sep [] rawNik = filter is_digit rawNik"
    by (simp add: strip_seps digits_of_run)
  with assms show ?thesis
    by (simp add: method1_def is_nik16_iff list_all_iff)
qed

declare squeeze.simps(2) [simp del]

lemma rx_replace_all_Nil: "bt r [] = [] \<Longrightarrow> rx_replace_all r rep [] = []"
  by (subst rx_replace_all.simps) (simp add: rx_exec.simps)

lemma rx_replace_all_skip:
  "bt r (c # s) = [] \<Longrightarrow> rx_replace_all r rep (c # s) = c # rx_replace_all r rep s"
proof -
  assume a: "bt r (c # s) = []"
  show ?thesis
  proof (cases "rx_exec r s")
    case None
    with a have "rx_exec r (c # s) = None" by (simp add: rx_exec.simps)
    with None show ?thesis
      by (subst rx_replace_all.simps, subst (2) rx_replace_all.simps) simp
  next
    case (Some x)
    obtain i n where x: "x = (i, n)" by (cases x)
    with a Some have "rx_exec r (c # s) = Some (Suc i, n)" by (simp add: rx_exec.simps)
    with Some x show ?thesis
      by (subst rx_replace_all.simps, subst (3) rx_replace_all.simps) simp
  qed
qed

lemma rx_replace_all_here:
  assumes "bt r s = t # ts" "length t < length s"
  shows "rx_replace_all r rep s = rep @ rx_replace_all r rep (drop (length s - length t) s)"
proof -
  from assms(1) have e: "rx_exec r s = Some (0, length s - length t)" by (rule rx_exec_here)
  from assms(2) have "take (length s - length t) s \<noteq> []" by auto
  with e show ?thesis
    by (subst rx_replace_all.simps) simp
qed

lemma bt_Star_Chr:
  "bt (Star (Chr p)) [] = [[]]"
  "bt (Star (Chr p)) (c # s) = (if p c then bt (Star (Chr p)) s @ [c # s] else [c # s])"
  by (subst bt.simps(6), simp)+

lemma bt_Star_Chr_hd: "\<exists>ts. bt (Star (Chr p)) s = dropWhile p s # ts"
  by (induction s) (auto simp: bt_Star_Chr)

lemma bt_Plus_Chr:
  "bt (Plus (Chr p)) [] = []"
  "bt (Plus (Chr p)) (c # s) = (if p c then bt (Star (Chr p)) s else [])"
  by (simp_all add: Plus_def)

lemma squeeze_replace: "rx_replace_all (Plus (Chr p)) rep s = squeeze p rep s"
proof (induction p rep s rule: squeeze.induct)
  case (1 p rep)
  then show ?case by (simp add: rx_replace_all_Nil bt_Plus_Chr)
next
  case (2 p rep c s)
  show ?case
  proof (cases "p c")
    case True
    obtain ts where ts: "bt (Star (Chr p)) s = dropWhile p s # ts"
      using bt_Star_Chr_hd by blast
    with True have b: "bt (Plus (Chr p)) (c # s) = dropWhile p s # ts"
      by (simp add: bt_Plus_Chr)
    have l: "length (dropWhile p s) < length (c # s)"
      by (simp add: less_Suc_eq_le length_dropWhile_le)
    have "drop (length (c # s) - length (dropWhile p s)) (c # s) = dropWhile p s"
    proof -
      have "c # s = (c # takeWhile p s) @ dropWhile p s" by simp
      then have "drop (length (c # takeWhile p s)) (c # s) = dropWhile p s"
        by (metis append_eq_conv_conj)
      moreover have "length (c # s) - length (dropWhile p s) = length (c # takeWhile p s)"
        by (metis \<open>c # s = (c # takeWhile p s) @ dropWhile p s\<close> add_diff_cancel_right' length_append)
      ultimately show ?thesis by simp
    qed
    with rx_replace_all_here[OF b l, of rep] "2.IH"(1)[OF True] True show ?thesis
      by (simp add: squeeze.simps)
  next
    case False
    then have "bt (Plus (Chr p)) (c # s) = []" by (simp add: bt_Plus_Chr)
    from rx_replace_all_skip[OF this, of rep] "2.IH"(2)[OF False] False show ?thesis
      by (simp add: squeeze.simps)
  qed
qed

lemma clean_text_squeeze:
  "clean_text text = js_trim (squeeze is_space (str '' '') (squeeze is_nlcr (str '' '') text))"
  by (simp add: clean_text_def rx_spaces_def rx_newlines_def squeeze_replace)

declare words.simps(2) [simp del]

section \<open>Digit runs survive the cleaning\<close>

lemma run_from_sep: "is_sep c \<Longrightarrow> run_from k (c # s) = run_from k s"
  by (cases k) (auto dest: digit_not_sep)

lemma run_from_skip_seps: "list_all is_sep a \<Longrightarrow> run_from k (a @ s) = run_from k s"
  by (induction a) (simp_all add: run_from_sep)

lemma run_from_append: "run_from k a \<Longrightarrow> run_from k (a @ b)"
  by (induction k a rule: run_from.induct) (auto split: if_splits)

lemma run_from_has: "run_from n s \<Longrightarrow> has_run n s"
  by (cases s) auto

lemma has_run_suffix: "has_run n b \<Longrightarrow> has_run n (a @ b)"
  by (induction a) (auto simp: run_from_has)

lemma has_run_prefix: "has_run n a \<Longrightarrow> has_run n (a @ b)"
proof (induction a)
  case Nil
  then have "n = 0" by (cases n) auto
  then show ?case by (cases b) auto
next
  case (Cons c a)
  then show ?case using run_from_append[of n "c # a" b] by auto
qed

lemma run_of_word:
  "list_all (\<lambda>c. is_digit c \<or> is_sep c) w \<Longrightarrow> n \<le> length (filter is_digit w)
     \<Longrightarrow> run_from n (w @ u)"
proof (induction w arbitrary: n)
  case Nil
  then show ?case by simp
next
  case (Cons c w)
  from Cons.prems(1) have w: "list_all (\<lambda>c. is_digit c \<or> is_sep c) w"
    and c: "is_digit c \<or> is_sep c" by simp_all
  show ?case
  proof (cases n)
    case 0
    then show ?thesis by simp
  next
    case (Suc k)
    show ?thesis
    proof (cases "is_digit c")
      case True
      with Cons.prems(2) Suc have "k \<le> length (filter is_digit w)" by simp
      from Cons.IH[OF w this] True Suc show ?thesis by simp
    next
      case False
      with Cons.prems(2) have "n \<le> length (filter is_digit w)" by simp
      from Cons.IH[OF w this] False c Suc show ?thesis by simp
    qed
  qed
qed

lemma dropWhile_suffix: "\<exists>a. s = a @ dropWhile p s \<and> list_all p a"
  by (intro exI[of _ "takeWhile p s"]) (auto simp: list_all_iff dest: set_takeWhileD)

lemma run_from_squeeze:
  "\<forall>c. p c \<longrightarrow> is_sep c \<Longrightarrow> list_all is_sep rep \<Longrightarrow> run_from k (squeeze p rep s)
     \<Longrightarrow> run_from k s"
proof (induction p rep s arbitrary: k rule: squeeze.induct)
  case (1 p rep)
  then show ?case by simp
next
  case (2 p rep c s)
  show ?case
  proof (cases "p c")
    case True
    with "2.prems"(3) have "run_from k (rep @ squeeze p rep (dropWhile p s))"
      by (simp add: squeeze.simps)
    with "2.prems"(2) have "run_from k (squeeze p rep (dropWhile p s))"
      by (simp add: run_from_skip_seps)
    from "2.IH"(1)[OF True "2.prems"(1,2) this] have d: "run_from k (dropWhile p s)" .
    obtain a where a: "s = a @ dropWhile p s" "list_all p a"
      using dropWhile_suffix by blast
    from a(2) "2.prems"(1) have "list_all is_sep a" by (auto simp: list_all_iff)
    with d a(1) have "run_from k s" by (metis run_from_skip_seps)
    with True "2.prems"(1) show ?thesis by (simp add: run_from_sep)
  next
    case False
    with "2.prems"(3) have r: "run_from k (c # squeeze p rep s)"
      by (simp add: squeeze.simps)
    show ?thesis
    proof (cases k)
      case 0
      then show ?thesis by simp
    next
      case (Suc j)
      show ?thesis
      proof (cases "is_digit c")
        case True
        with r Suc have "run_from j (squeeze p rep s)" by simp
        from "2.IH"(2)[OF False "2.prems"(1,2) this] True Suc show ?thesis by simp
      next
        case nd: False
        with r Suc have sep: "is_sep c" and "run_from k (squeeze p rep s)"
          by (auto split: if_splits)
        from "2.IH"(2)[OF False "2.prems"(1,2) this(2)] sep show ?thesis
          by (simp add: run_from_sep)
      qed
    qed
  qed
qed

lemma has_run_skip_seps: "list_all is_sep a \<Longrightarrow> has_run n (a @ t) \<Longrightarrow> has_run n t"
proof (induction a)
  case Nil
  then show ?case by simp
next
  case (Cons x a)
  from Cons.prems(1) have x: "is_sep x" and a: "list_all is_sep a" by simp_all
  from Cons.prems(2) consider "run_from n (x # a @ t)" | "has_run n (a @ t)" by auto
  then show ?case
  proof cases
    case 1
    with x a have "run_from n t" by (simp add: run_from_sep run_from_skip_seps)
    then show ?thesis by (rule run_from_has)
  next
    case 2
    from Cons.IH[OF a 2] show ?thesis .
  qed
qed

lemma has_run_squeeze:
  "\<forall>c. p c \<longrightarrow> is_sep c \<Longrightarrow> list_all is_sep rep \<Longrightarrow> has_run n (squeeze p rep s)
     \<Longrightarrow> has_run n s"
proof (induction p rep s rule: squeeze.induct)
  case (1 p rep)
  then show ?case by simp
next
  case (2 p rep c s)
  show ?case
  proof (cases "p c")
    case True
    with "2.prems"(3) have "has_run n (rep @ squeeze p rep (dropWhile p s))"
      by (simp add: squeeze.simps)
    from has_run_skip_seps[OF "2.prems"(2) this]
    have "has_run n (squeeze p rep (dropWhile p s))" .
    from "2.IH"(1)[OF True "2.prems"(1,2) this] have "has_run n (dropWhile p s)" .
    moreover obtain a where "s = a @ dropWhile p s" using dropWhile_suffix by blast
    ultimately have "has_run n s" by (metis has_run_suffix)
    then show ?thesis by simp
  next
    case False
    with "2.prems"(3) consider "run_from n (squeeze p rep (c # s))" | "has_run n (squeeze p rep s)"
      by (auto simp: squeeze.simps)
    then show ?thesis
    proof cases
      case 1
      from run_from_squeeze[OF "2.prems"(1,2) 1] show ?thesis by (rule run_from_has)
    next
      case 2
      from "2.IH"(2)[OF False "2.prems"(1,2) 2] show ?thesis by simp
    qed
  qed
qed

lemma trim_decomp: "\<exists>a b. s = a @ js_trim s @ b \<and> list_all is_space a \<and> list_all is_space b"
proof -
  define m where "m = dropWhile is_space s"
  define a where "a = takeWhile is_space s"
  define b where "b = rev (takeWhile is_space (rev m))"
  have 1: "s = a @ m" by (simp add: a_def m_def)
  have "rev m = takeWhile is_space (rev m) @ dropWhile is_space (rev m)" by simp
  then have "rev (rev m) = rev (takeWhile is_space (rev m) @ dropWhile is_space (rev m))"
    by (rule arg_cong)
  then have 2: "m = js_trim s @ b"
    by (simp only: rev_rev_ident rev_append js_trim_def b_def m_def)
  have 3: "list_all is_space a"
    by (auto simp: a_def list_all_iff dest: set_takeWhileD)
  have 4: "list_all is_space b"
    by (auto simp: b_def list_all_iff dest: set_takeWhileD)
  from 1 2 have "s = a @ js_trim s @ b" by simp
  with 3 4 show ?thesis by blast
qed

lemma has_run_trim: "has_run n (js_trim s) \<Longrightarrow> has_run n s"
proof -
  assume h: "has_run n (js_trim s)"
  obtain a b where d: "s = a @ js_trim s @ b" using trim_decomp by blast
  from h have "has_run n (js_trim s @ b)" by (rule has_run_prefix)
  then have "has_run n (a @ js_trim s @ b)" by (rule has_run_suffix)
  then show ?thesis using d by simp
qed

lemma sp_sep: "list_all is_sep (str '' '')"
  by (simp add: str_def is_sep_def is_space_def)

lemma has_run_clean: "has_run n (clean_text text) \<Longrightarrow> has_run n text"
proof -
  have 1: "\<forall>c. is_space c \<longrightarrow> is_sep c" by (simp add: space_sep)
  have 2: "\<forall>c. is_nlcr c \<longrightarrow> is_sep c" by (simp add: space_sep nlcr_space)
  assume "has_run n (clean_text text)"
  then have "has_run n (js_trim (squeeze is_space (str '' '') (squeeze is_nlcr (str '' '') text)))"
    by (simp only: clean_text_squeeze)
  then have "has_run n (squeeze is_space (str '' '') (squeeze is_nlcr (str '' '') text))"
    by (rule has_run_trim)
  then have "has_run n (squeeze is_nlcr (str '' '') text)"
    by (rule has_run_squeeze[OF 1 sp_sep])
  then show ?thesis
    by (rule has_run_squeeze[OF 2 sp_sep])
qed

section \<open>Tokens survive the cleaning\<close>

lemma tok16_sep: "is_sep c \<Longrightarrow> tok16 0 (c # s) = tok16 0 s"
  by simp

lemma tok16_skip_seps: "list_all is_sep a \<Longrightarrow> tok16 0 (a @ s) = tok16 0 s"
  by (induction a) simp_all

lemma tok16_append_seps: "list_all is_sep b \<Longrightarrow> tok16 k m \<Longrightarrow> tok16 k (m @ b)"
proof (induction k m rule: tok16.induct)
  case (1 k)
  then show ?case by (cases b) auto
next
  case (2 k c s)
  then show ?case by (auto split: if_splits)
qed

lemma tok16_squeeze:
  "\<forall>c. p c \<longrightarrow> is_sep c \<Longrightarrow> is_sep x \<Longrightarrow> tok16 k (squeeze p [x] s) \<Longrightarrow> tok16 k s"
proof (induction p "[x]" s arbitrary: k rule: squeeze.induct)
  case (1 p)
  then show ?case by simp
next
  case (2 p c s)
  show ?case
  proof (cases "p c")
    case True
    with "2.prems"(1) have c: "is_sep c" by simp
    from True "2.prems"(3) have "tok16 k (x # squeeze p [x] (dropWhile p s))"
      by (simp add: squeeze.simps)
    with "2.prems"(2) consider "k = 16" | "tok16 0 (squeeze p [x] (dropWhile p s))" by auto
    then show ?thesis
    proof cases
      case 1
      with c show ?thesis by simp
    next
      case 2
      from "2.hyps"(1)[OF True "2.prems"(1,2) 2] have d: "tok16 0 (dropWhile p s)" .
      obtain a where a: "s = a @ dropWhile p s" "list_all p a"
        using dropWhile_suffix by blast
      from a(2) "2.prems"(1) have "list_all is_sep a" by (auto simp: list_all_iff)
      with d a(1) have "tok16 0 s" by (metis tok16_skip_seps)
      with c show ?thesis by simp
    qed
  next
    case False
    with "2.prems"(3) have t: "tok16 k (c # squeeze p [x] s)"
      by (simp add: squeeze.simps)
    show ?thesis
    proof (cases "is_sep c")
      case True
      with t consider "k = 16" | "tok16 0 (squeeze p [x] s)" by auto
      then show ?thesis
      proof cases
        case 1
        with True show ?thesis by simp
      next
        case 2
        from "2.hyps"(2)[OF False "2.prems"(1,2) 2] True show ?thesis by simp
      qed
    next
      case ns: False
      with t have "tok16 (if is_digit c then Suc k else k) (squeeze p [x] s)" by simp
      from "2.hyps"(2)[OF False "2.prems"(1,2) this] ns show ?thesis by simp
    qed
  qed
qed

lemma tok16_trim: "tok16 0 (js_trim s) \<Longrightarrow> tok16 0 s"
proof -
  assume h: "tok16 0 (js_trim s)"
  obtain a b where d: "s = a @ js_trim s @ b" "list_all is_space a" "list_all is_space b"
    using trim_decomp by blast
  then have sa: "list_all is_sep a" and sb: "list_all is_sep b"
    by (auto simp: list_all_iff space_sep)
  from tok16_append_seps[OF sb h] have "tok16 0 (js_trim s @ b)" .
  with sa have "tok16 0 (a @ js_trim s @ b)" by (simp add: tok16_skip_seps)
  with d(1) show ?thesis by simp
qed

lemma tok16_clean: "tok16 0 (clean_text text) \<Longrightarrow> tok16 0 text"
proof -
  have 1: "\<forall>c. is_space c \<longrightarrow> is_sep c" by (simp add: space_sep)
  have 2: "\<forall>c. is_nlcr c \<longrightarrow> is_sep c" by (simp add: space_sep nlcr_space)
  have sp: "is_sep 0x20" by (simp add: is_sep_def is_space_def)
  have str_sp: "str '' '' = [0x20]" by (simp add: str_def)
  assume "tok16 0 (clean_text text)"
  then have "tok16 0 (js_trim (squeeze is_space [0x20] (squeeze is_nlcr [0x20] text)))"
    by (simp only: clean_text_squeeze str_sp)
  then have "tok16 0 (squeeze is_space [0x20] (squeeze is_nlcr [0x20] text))"
    by (rule tok16_trim)
  then have "tok16 0 (squeeze is_nlcr [0x20] text)"
    by (rule tok16_squeeze[OF 1 sp])
  then show ?thesis
    by (rule tok16_squeeze[OF 2 sp])
qed

section \<open>When the three methods find nothing\<close>

lemma has_run_drop: "has_run n (drop i s) \<Longrightarrow> has_run n s"
  by (metis append_take_drop_id has_run_suffix)

lemma within_digit_run: "within (\<lambda>c. is_digit c \<or> is_sep c) rx_digit_run"
  by (simp add: rx_digit_run_def RepFrom_def Rep_numeral)

lemma least_digit_run: "least is_digit rx_digit_run = 16"
  by (simp add: rx_digit_run_def RepFrom_def Rep_numeral)

lemma bt_digit_run: "t \<in> set (bt rx_digit_run s) \<Longrightarrow> run_from 16 s"
proof -
  assume "t \<in> set (bt rx_digit_run s)"
  from bt_sound[OF this within_digit_run, of is_digit] obtain w where
    "s = w @ t" "list_all (\<lambda>c. is_digit c \<or> is_sep c) w" "16 \<le> length (filter is_digit w)"
    by (auto simp: least_digit_run)
  then show ?thesis using run_of_word by blast
qed

lemma method2_no_run: "\<not> has_run 16 c \<Longrightarrow> rx_match_all rx_digit_run c = []"
proof -
  assume n: "\<not> has_run 16 c"
  have "rx_exec rx_digit_run c = None"
  proof (cases "rx_exec rx_digit_run c")
    case None
    then show ?thesis .
  next
    case (Some x)
    obtain i k where "x = (i, k)" by (cases x)
    with Some rx_exec_Some[of rx_digit_run c i k] obtain t ts where
      "bt rx_digit_run (drop i c) = t # ts" by auto
    then have "t \<in> set (bt rx_digit_run (drop i c))" by simp
    then have "run_from 16 (drop i c)" by (rule bt_digit_run)
    then have "has_run 16 (drop i c)" by (rule run_from_has)
    then have "has_run 16 c" by (rule has_run_drop)
    with n show ?thesis by simp
  qed
  then show ?thesis by (subst rx_match_all.simps) simp
qed

lemma method1_run: "method1 c = Some nik \<Longrightarrow> has_run 16 c"
proof -
  assume m: "method1 c = Some nik"
  then obtain g where g: "rx_exec_group rx_nik_label rx_nik_group c = Some g"
    by (auto simp: method1_def split: option.splits)
  from m method1_capture[OF g] have l: "length (filter is_digit g) = 16"
    by (auto split: if_splits)
  from rx_exec_group_Some[OF g] obtain i t u where t: "t \<in> set (bt rx_nik_label (drop i c))"
    and u: "u \<in> set (bt rx_nik_group t)" and gt: "g = take (length t - length u) t" by blast
  from bt_sound[OF u within_nik_group, of is_digit] obtain w where
    w: "t = w @ u" "list_all (\<lambda>c. is_digit c \<or> is_sep c) w" by blast
  with gt have "g = w" by simp
  with l w have "run_from 16 t" using run_of_word[of w 16 u] by simp
  then have "has_run 16 t" by (rule run_from_has)
  moreover from bt_suffix[OF t] obtain v where "drop i c = v @ t" by blast
  ultimately have "has_run 16 (drop i c)" by (metis has_run_suffix)
  then show ?thesis by (rule has_run_drop)
qed

lemma split_words: "split_loop (Plus (Chr p)) cur s = words p cur s"
proof (induction p cur s rule: words.induct)
  case (1 p cur)
  then show ?case by simp
next
  case (2 p cur c s)
  show ?case
  proof (cases "p c")
    case True
    obtain ts where ts: "bt (Star (Chr p)) s = dropWhile p s # ts"
      using bt_Star_Chr_hd by blast
    with True have b: "bt (Plus (Chr p)) (c # s) = dropWhile p s # ts"
      by (simp add: bt_Plus_Chr)
    have l: "length (dropWhile p s) \<le> length s" by (rule length_dropWhile_le)
    have "c # s = (c # takeWhile p s) @ dropWhile p s" by simp
    then have d: "drop (length (c # takeWhile p s)) (c # s) = dropWhile p s"
      by (metis append_eq_conv_conj)
    have "length (c # s) = length (c # takeWhile p s) + length (dropWhile p s)"
      by (metis \<open>c # s = (c # takeWhile p s) @ dropWhile p s\<close> length_append)
    then have e: "length (c # s) - length (dropWhile p s) = length (c # takeWhile p s)"
      by simp
    from b e d "2.IH"(1)[OF True] True show ?thesis
      by (subst split_loop.simps) (simp add: words.simps del: drop_Suc_Cons)
  next
    case False
    then have "bt (Plus (Chr p)) (c # s) = []" by (simp add: bt_Plus_Chr)
    with "2.IH"(2)[OF False] False show ?thesis
      by (subst split_loop.simps) (simp add: words.simps)
  qed
qed

lemma words_tok16:
  "list_ex (\<lambda>w. length (filter is_digit w) = 16) (words is_sep cur s)
     \<Longrightarrow> tok16 (length (filter is_digit cur)) s"
proof (induction is_sep cur s rule: words.induct)
  case (1 cur)
  then show ?case by simp
next
  case (2 cur c s)
  show ?case
  proof (cases "is_sep c")
    case True
    with "2.prems" consider "length (filter is_digit cur) = 16"
      | "list_ex (\<lambda>w. length (filter is_digit w) = 16) (words is_sep [] (dropWhile is_sep s))"
      by (auto simp: words.simps)
    then show ?thesis
    proof cases
      case 1
      with True show ?thesis by simp
    next
      case 2
      from "2.hyps"(1)[OF True 2] have d: "tok16 0 (dropWhile is_sep s)" by simp
      obtain a where a: "s = a @ dropWhile is_sep s" "list_all is_sep a"
        using dropWhile_suffix by blast
      with d have "tok16 0 s" by (metis tok16_skip_seps)
      with True show ?thesis by simp
    qed
  next
    case False
    with "2.prems" have "list_ex (\<lambda>w. length (filter is_digit w) = 16) (words is_sep (cur @ [c]) s)"
      by (simp add: words.simps)
    from "2.hyps"(2)[OF False this] False show ?thesis by (cases "is_digit c") simp_all
  qed
qed

lemma method3_word: "method3 ws = Some nik \<Longrightarrow> list_ex (\<lambda>w. length (filter is_digit w) = 16) ws"
  by (induction ws) (auto simp: Let_def strip_non_digits is_nik16_iff split: if_splits)

lemma method3_token: "method3 (rx_split rx_seps c) = Some nik \<Longrightarrow> tok16 0 c"
proof -
  assume m: "method3 (rx_split rx_seps c) = Some nik"
  show ?thesis
  proof (cases "c = []")
    case True
    with m show ?thesis
      by (simp add: rx_split_def rx_seps_def bt_Plus_Chr Let_def strip_non_digits is_nik16_iff)
  next
    case False
    with m have "method3 (words is_sep [] c) = Some nik"
      by (simp add: rx_split_def rx_seps_def split_words)
    then have "list_ex (\<lambda>w. length (filter is_digit w) = 16) (words is_sep [] c)"
      by (rule method3_word)
    from words_tok16[OF this] show ?thesis by simp
  qed
qed

lemma run_from_numeral:
  "run_from (numeral k) [] = False"
  "run_from (numeral k) (c # s) =
     (if is_digit c then run_from (pred_numeral k) s
      else if is_sep c then run_from (numeral k) s else False)"
  by (simp_all add: numeral_eq_Suc)

section \<open>The label survives the cleaning\<close>

lemma has_nik_cons:
  "has_nik (a # s) \<longleftrightarrow>
     (\<exists>b c r. s = b # c # r \<and> same_ci CHR ''N'' a \<and> same_ci CHR ''I'' b \<and> same_ci CHR ''K'' c)
     \<or> has_nik s"
proof (cases s)
  case Nil
  then show ?thesis by simp
next
  case (Cons b s1)
  then show ?thesis by (cases s1) auto
qed

lemma has_nik_suffix: "has_nik b \<Longrightarrow> has_nik (a @ b)"
  by (induction a) (simp_all add: has_nik_cons)

lemma has_nik_prefix: "has_nik a \<Longrightarrow> has_nik (a @ b)"
proof (induction a)
  case Nil
  then show ?case by simp
next
  case (Cons x a)
  from Cons.prems consider
    (w) b' c' r where "a = b' # c' # r" "same_ci CHR ''N'' x" "same_ci CHR ''I'' b'" "same_ci CHR ''K'' c'"
    | (t) "has_nik a"
    using has_nik_cons[of x a] by blast
  then show ?case
  proof cases
    case w
    then show ?thesis by simp
  next
    case t
    from Cons.IH[OF t] show ?thesis by (simp add: has_nik_cons)
  qed
qed

lemma has_nik_drop: "has_nik (drop i s) \<Longrightarrow> has_nik s"
  by (metis append_take_drop_id has_nik_suffix)

lemma squeeze_head:
  "squeeze p [x] s = b # t \<Longrightarrow> b \<noteq> x \<Longrightarrow> \<exists>t'. s = b # t' \<and> squeeze p [x] t' = t"
  by (cases s) (auto simp: squeeze.simps split: if_splits)

lemma not_letter_sp: "\<not> same_ci CHR ''N'' 0x20" "\<not> same_ci CHR ''I'' 0x20" "\<not> same_ci CHR ''K'' 0x20"
  by (simp_all add: same_ci_def ascii_upper_def)

lemma has_nik_squeeze: "has_nik (squeeze p [0x20] s) \<Longrightarrow> has_nik s"
proof (induction p "[0x20 :: cu]" s rule: squeeze.induct)
  case (1 p)
  then show ?case by simp
next
  case (2 p c s)
  show ?case
  proof (cases "p c")
    case True
    with "2.prems" have "has_nik (0x20 # squeeze p [0x20] (dropWhile p s))"
      by (simp add: squeeze.simps)
    then have "has_nik (squeeze p [0x20] (dropWhile p s))"
      by (simp add: has_nik_cons not_letter_sp)
    from "2.hyps"(1)[OF True this] have "has_nik (dropWhile p s)" .
    moreover obtain a where "s = a @ dropWhile p s" using dropWhile_suffix by blast
    ultimately have "has_nik s" by (metis has_nik_suffix)
    then show ?thesis by (simp add: has_nik_cons)
  next
    case False
    with "2.prems" have "has_nik (c # squeeze p [0x20] s)"
      by (simp add: squeeze.simps)
    then consider
      (w) b d r where "squeeze p [0x20] s = b # d # r" "same_ci CHR ''N'' c"
        "same_ci CHR ''I'' b" "same_ci CHR ''K'' d"
      | (t) "has_nik (squeeze p [0x20] s)"
      using has_nik_cons[of c "squeeze p [0x20] s"] by blast
    then show ?thesis
    proof cases
      case w
      from w(3) have "b \<noteq> 0x20" using not_letter_sp by auto
      from squeeze_head[OF w(1) this] obtain s1 where s1: "s = b # s1" "squeeze p [0x20] s1 = d # r"
        by blast
      from w(4) have "d \<noteq> 0x20" using not_letter_sp by auto
      from squeeze_head[OF s1(2) this] obtain s2 where "s1 = d # s2" by blast
      with s1 w show ?thesis by simp
    next
      case t
      from "2.hyps"(2)[OF False t] show ?thesis by (simp add: has_nik_cons)
    qed
  qed
qed

lemma has_nik_trim: "has_nik (js_trim s) \<Longrightarrow> has_nik s"
proof -
  assume h: "has_nik (js_trim s)"
  obtain a b where d: "s = a @ js_trim s @ b" using trim_decomp by blast
  from h have "has_nik (js_trim s @ b)" by (rule has_nik_prefix)
  then have "has_nik (a @ js_trim s @ b)" by (rule has_nik_suffix)
  then show ?thesis using d by simp
qed

lemma has_nik_clean: "has_nik (clean_text text) \<Longrightarrow> has_nik text"
proof -
  have str_sp: "str '' '' = [0x20]" by (simp add: str_def)
  assume "has_nik (clean_text text)"
  then have "has_nik (js_trim (squeeze is_space [0x20] (squeeze is_nlcr [0x20] text)))"
    by (simp only: clean_text_squeeze str_sp)
  then have "has_nik (squeeze is_space [0x20] (squeeze is_nlcr [0x20] text))"
    by (rule has_nik_trim)
  then have "has_nik (squeeze is_nlcr [0x20] text)"
    by (rule has_nik_squeeze)
  then show ?thesis
    by (rule has_nik_squeeze)
qed

lemma bt_nik_label:
  "t \<in> set (bt rx_nik_label s) \<Longrightarrow> has_nik s"
proof -
  assume t: "t \<in> set (bt rx_nik_label s)"
  show ?thesis
  proof (cases s)
    case Nil
    with t show ?thesis by (simp add: rx_nik_label_def word_ci_def)
  next
    case s1: (Cons a s1)
    show ?thesis
    proof (cases s1)
      case Nil
      with t s1 show ?thesis by (simp add: rx_nik_label_def word_ci_def)
    next
      case s2: (Cons b s2)
      show ?thesis
      proof (cases s2)
        case Nil
        with t s1 s2 show ?thesis by (simp add: rx_nik_label_def word_ci_def)
      next
        case (Cons c s3)
        with t s1 s2 show ?thesis
          by (auto simp: rx_nik_label_def word_ci_def split: if_splits)
      qed
    qed
  qed
qed

lemma method1_label: "method1 c = Some nik \<Longrightarrow> has_nik c"
proof -
  assume "method1 c = Some nik"
  then obtain g where g: "rx_exec_group rx_nik_label rx_nik_group c = Some g"
    by (auto simp: method1_def split: option.splits)
  from rx_exec_group_Some[OF g] obtain i t where "t \<in> set (bt rx_nik_label (drop i c))"
    by blast
  then have "has_nik (drop i c)" by (rule bt_nik_label)
  then show ?thesis by (rule has_nik_drop)
qed

section \<open>The cleaned text around a part that the cleaning keeps\<close>

lemma dropWhile_app_hd: "b \<noteq> [] \<Longrightarrow> \<not> p (hd b) \<Longrightarrow> dropWhile p (a @ b) = dropWhile p a @ b"
  by (induction a) (auto simp: neq_Nil_conv)

lemma squeeze_app_hd:
  "b \<noteq> [] \<Longrightarrow> \<not> p (hd b) \<Longrightarrow> squeeze p rep (a @ b) = squeeze p rep a @ squeeze p rep b"
proof (induction p rep a rule: squeeze.induct)
  case (1 p rep)
  then show ?case by simp
next
  case (2 p rep c a)
  show ?case
  proof (cases "p c")
    case True
    from "2.IH"(1)[OF True "2.prems"] True "2.prems" show ?thesis
      by (simp add: squeeze.simps dropWhile_app_hd)
  next
    case False
    from "2.IH"(2)[OF False "2.prems"] False show ?thesis
      by (simp add: squeeze.simps)
  qed
qed

lemma dropWhile_last: "a \<noteq> [] \<Longrightarrow> \<not> p (last a) \<Longrightarrow> dropWhile p a \<noteq> [] \<and> last (dropWhile p a) = last a"
  by (induction a) (auto split: if_splits)

lemma dropWhile_app_last: "a \<noteq> [] \<Longrightarrow> \<not> p (last a) \<Longrightarrow> dropWhile p (a @ b) = dropWhile p a @ b"
  by (induction a) (auto split: if_splits)

lemma squeeze_app_last:
  "a \<noteq> [] \<Longrightarrow> \<not> p (last a) \<Longrightarrow> squeeze p rep (a @ b) = squeeze p rep a @ squeeze p rep b"
proof (induction p rep a rule: squeeze.induct)
  case (1 p rep)
  then show ?case by simp
next
  case (2 p rep c a)
  show ?case
  proof (cases "p c")
    case True
    with "2.prems" have a: "a \<noteq> []" "\<not> p (last a)" by (auto split: if_splits)
    from dropWhile_last[of a p] a have "dropWhile p a \<noteq> []" "\<not> p (last (dropWhile p a))"
      by simp_all
    from "2.IH"(1)[OF True this]
    have "squeeze p rep (dropWhile p a @ b) = squeeze p rep (dropWhile p a) @ squeeze p rep b" .
    with True a show ?thesis
      by (simp add: squeeze.simps dropWhile_app_last)
  next
    case False
    show ?thesis
    proof (cases "a = []")
      case True
      with False show ?thesis by (simp add: squeeze.simps)
    next
      case na: False
      with "2.prems" have "\<not> p (last a)" by simp
      from "2.IH"(2)[OF False na this] False show ?thesis by (simp add: squeeze.simps)
    qed
  qed
qed

lemma squeeze_around:
  assumes "m \<noteq> []" "\<not> p (hd m)" "\<not> p (last m)"
  shows "squeeze p rep (pre @ m @ post) = squeeze p rep pre @ squeeze p rep m @ squeeze p rep post"
proof -
  from assms have "m @ post \<noteq> []" "\<not> p (hd (m @ post))" by auto
  then have "squeeze p rep (pre @ m @ post) = squeeze p rep pre @ squeeze p rep (m @ post)"
    using squeeze_app_hd[of "m @ post" p rep pre] by simp
  with squeeze_app_last[of m p rep post] assms(1,3) show ?thesis by simp
qed

lemma trim_around:
  assumes "m \<noteq> []" "\<not> is_space (hd m)" "\<not> is_space (last m)"
  shows "js_trim (a @ m @ b) = dropWhile is_space a @ m @ rev (dropWhile is_space (rev b))"
proof -
  from assms have 1: "dropWhile is_space (a @ m @ b) = dropWhile is_space a @ m @ b"
    by (simp add: dropWhile_app_hd)
  from assms have h: "rev m @ rev (dropWhile is_space a) \<noteq> []"
    "\<not> is_space (hd (rev m @ rev (dropWhile is_space a)))"
    by (auto simp: hd_rev)
  have "rev (dropWhile is_space a @ m @ b) = rev b @ (rev m @ rev (dropWhile is_space a))"
    by simp
  with dropWhile_app_hd[of "rev m @ rev (dropWhile is_space a)" is_space "rev b"] h
  have "dropWhile is_space (rev (dropWhile is_space a @ m @ b))
      = dropWhile is_space (rev b) @ rev m @ rev (dropWhile is_space a)" by simp
  with 1 show ?thesis by (simp add: js_trim_def)
qed

lemma clean_around:
  assumes "m \<noteq> []" "\<not> is_space (hd m)" "\<not> is_space (last m)"
    and "squeeze is_nlcr [0x20] m = m" "squeeze is_space [0x20] m = m"
  shows "clean_text (pre @ m @ post) =
     dropWhile is_space (squeeze is_space [0x20] (squeeze is_nlcr [0x20] pre)) @ m @
     rev (dropWhile is_space (rev (squeeze is_space [0x20] (squeeze is_nlcr [0x20] post))))"
proof -
  have str_sp: "str '' '' = [0x20]" by (simp add: str_def)
  from assms(2,3) have n: "\<not> is_nlcr (hd m)" "\<not> is_nlcr (last m)"
    using nlcr_space by blast+
  from squeeze_around[of m is_nlcr "[0x20]" pre post] assms(1) n assms(4)
  have 1: "squeeze is_nlcr [0x20] (pre @ m @ post)
     = squeeze is_nlcr [0x20] pre @ m @ squeeze is_nlcr [0x20] post" by simp
  from squeeze_around[of m is_space "[0x20]" "squeeze is_nlcr [0x20] pre" "squeeze is_nlcr [0x20] post"]
    assms(1,2,3,5)
  have 2: "squeeze is_space [0x20] (squeeze is_nlcr [0x20] pre @ m @ squeeze is_nlcr [0x20] post)
     = squeeze is_space [0x20] (squeeze is_nlcr [0x20] pre) @ m
       @ squeeze is_space [0x20] (squeeze is_nlcr [0x20] post)" by simp
  show ?thesis
    using trim_around[of m _ _, OF assms(1,2,3)]
    by (simp only: clean_text_squeeze str_sp 1 2)
qed

lemma squeeze_keep: "list_all (\<lambda>c. \<not> p c) w \<Longrightarrow> squeeze p rep w = w"
  by (induction w) (simp_all add: squeeze.simps)

lemma set_squeeze: "set (squeeze p rep s) \<subseteq> set s \<union> set rep"
proof (induction p rep s rule: squeeze.induct)
  case (1 p rep)
  then show ?case by simp
next
  case (2 p rep c s)
  show ?case
  proof (cases "p c")
    case True
    from "2.IH"(1)[OF True] have "set (squeeze p rep (dropWhile p s)) \<subseteq> set s \<union> set rep"
      using set_dropWhileD by fastforce
    with True show ?thesis by (auto simp: squeeze.simps)
  next
    case False
    from "2.IH"(2)[OF False] False show ?thesis by (auto simp: squeeze.simps)
  qed
qed

lemma no_digit_cleaned_left:
  "list_all (\<lambda>c. \<not> is_digit c) s \<Longrightarrow>
     list_all (\<lambda>c. \<not> is_digit c) (dropWhile is_space (squeeze is_space [0x20] (squeeze is_nlcr [0x20] s)))"
proof -
  assume a: "list_all (\<lambda>c. \<not> is_digit c) s"
  have sp: "\<not> is_digit 0x20" by (simp add: is_digit_def)
  have "set (dropWhile is_space (squeeze is_space [0x20] (squeeze is_nlcr [0x20] s)))
      \<subseteq> set (squeeze is_space [0x20] (squeeze is_nlcr [0x20] s))"
    using set_dropWhileD by fastforce
  also have "\<dots> \<subseteq> set (squeeze is_nlcr [0x20] s) \<union> {0x20}"
    using set_squeeze[of is_space "[0x20]"] by simp
  also have "\<dots> \<subseteq> set s \<union> {0x20}"
    using set_squeeze[of is_nlcr "[0x20]" s] by auto
  finally show ?thesis using a sp by (auto simp: list_all_iff)
qed

lemma no_digit_cleaned_right:
  "list_all (\<lambda>c. \<not> is_digit c) s \<Longrightarrow>
     list_all (\<lambda>c. \<not> is_digit c)
       (rev (dropWhile is_space (rev (squeeze is_space [0x20] (squeeze is_nlcr [0x20] s)))))"
proof -
  assume a: "list_all (\<lambda>c. \<not> is_digit c) s"
  have sp: "\<not> is_digit 0x20" by (simp add: is_digit_def)
  have "set (rev (dropWhile is_space (rev (squeeze is_space [0x20] (squeeze is_nlcr [0x20] s)))))
      \<subseteq> set (squeeze is_space [0x20] (squeeze is_nlcr [0x20] s))"
    using set_dropWhileD by fastforce
  also have "\<dots> \<subseteq> set (squeeze is_nlcr [0x20] s) \<union> {0x20}"
    using set_squeeze[of is_space "[0x20]"] by simp
  also have "\<dots> \<subseteq> set s \<union> {0x20}"
    using set_squeeze[of is_nlcr "[0x20]" s] by auto
  finally show ?thesis using a sp by (auto simp: list_all_iff)
qed

section \<open>The run pattern on 17 digits\<close>

lemma rx_digit_run_unit: "rx_digit_run = Seq (Seq (Rep 15 rx_unit) (Star rx_unit)) (Chr is_digit)"
  by (simp add: rx_digit_run_def RepFrom_def rx_unit_def)

lemma bt_unit_nondigit: "\<not> is_digit c \<Longrightarrow> bt rx_unit (c # s) = []"
  by (simp add: rx_unit_def)

lemma bt_unit_Nil: "bt rx_unit [] = []"
  by (simp add: rx_unit_def)

lemma bt_unit_digits: "is_digit d \<Longrightarrow> is_digit d' \<Longrightarrow> bt rx_unit (d # d' # s) = [d' # s]"
  by (simp add: rx_unit_def bt_Star_Chr digit_not_sep)

lemma bt_unit_last: "is_digit d \<Longrightarrow> bt rx_unit (d # s) = bt (Star (Chr is_sep)) s"
  by (simp add: rx_unit_def)

lemma bt_digit_run_nondigit: "\<not> is_digit c \<Longrightarrow> bt rx_digit_run (c # s) = []"
  by (simp add: rx_digit_run_unit Rep_numeral bt_unit_nondigit)

lemma bt_digit_run_Nil: "bt rx_digit_run [] = []"
  by (simp add: rx_digit_run_unit Rep_numeral bt_unit_Nil)

lemma bt_Rep_unit:
  "length w = n \<Longrightarrow> list_all is_digit w \<Longrightarrow> is_digit d \<Longrightarrow>
     bt (Rep n rx_unit) (w @ d # s) = [d # s]"
proof (induction n arbitrary: w)
  case 0
  then show ?case by simp
next
  case (Suc n)
  then obtain x w' where w: "w = x # w'" "length w' = n" "is_digit x" "list_all is_digit w'"
    by (cases w) auto
  have "bt rx_unit (x # w' @ d # s) = [w' @ d # s]"
  proof (cases w')
    case Nil
    with w Suc.prems show ?thesis by (simp add: bt_unit_digits)
  next
    case (Cons y w'')
    with w show ?thesis by (simp add: bt_unit_digits)
  qed
  with Suc.IH[OF w(2,4) Suc.prems(3)] w(1) show ?case by simp
qed

lemma no_digit_suffix:
  "list_all (\<lambda>c. \<not> is_digit c) s \<Longrightarrow> t \<in> set (bt r s) \<Longrightarrow> list_all (\<lambda>c. \<not> is_digit c) t"
  using bt_suffix[of t r s] by auto

lemma bt_unit_no_digit: "list_all (\<lambda>c. \<not> is_digit c) t \<Longrightarrow> bt rx_unit t = []"
  by (cases t) (simp_all add: bt_unit_Nil bt_unit_nondigit)

lemma bt_digit_no_digit: "list_all (\<lambda>c. \<not> is_digit c) t \<Longrightarrow> bt (Chr is_digit) t = []"
  by (cases t) simp_all

lemma bt_Star_unit_no_digit: "list_all (\<lambda>c. \<not> is_digit c) t \<Longrightarrow> bt (Star rx_unit) t = [t]"
  by (subst bt.simps(6)) (simp add: bt_unit_no_digit)

lemma concat_map_single: "(\<And>x. x \<in> set xs \<Longrightarrow> f x = [x]) \<Longrightarrow> concat (map f xs) = xs"
  by (induction xs) auto

lemma concat_map_nil: "(\<And>x. x \<in> set xs \<Longrightarrow> f x = []) \<Longrightarrow> concat (map f xs) = []"
  by (induction xs) auto

lemma bt_Star_unit_last:
  assumes "is_digit d" "list_all (\<lambda>c. \<not> is_digit c) post"
  shows "\<exists>X. bt (Star rx_unit) (d # post) = X @ [d # post] \<and>
           (\<forall>x \<in> set X. list_all (\<lambda>c. \<not> is_digit c) x)"
proof -
  let ?X = "filter (\<lambda>t. length t < length (d # post)) (bt (Star (Chr is_sep)) post)"
  have nd: "\<And>x. x \<in> set ?X \<Longrightarrow> list_all (\<lambda>c. \<not> is_digit c) x"
    using no_digit_suffix[OF assms(2)] by auto
  then have "concat (map (bt (Star rx_unit)) ?X) = ?X"
    by (intro concat_map_single) (simp add: bt_Star_unit_no_digit)
  with assms(1) have "bt (Star rx_unit) (d # post) = ?X @ [d # post]"
    by (subst bt.simps(6)) (simp add: bt_unit_last)
  with nd show ?thesis by blast
qed

lemma length_two: "length xs = Suc (Suc 0) \<Longrightarrow> \<exists>a b. xs = [a, b]"
  by (auto simp: length_Suc_conv)

lemma bt_digit_run_17:
  assumes "length ds = 17" "list_all is_digit ds" "list_all (\<lambda>c. \<not> is_digit c) post"
  shows "bt rx_digit_run (ds @ post) = [post, last ds # post]"
proof -
  define w where "w = take 15 ds"
  from assms(1) have "length (drop 15 ds) = Suc (Suc 0)" by simp
  then obtain d16 d17 where r: "drop 15 ds = [d16, d17]"
    using length_two by blast
  have "ds = take 15 ds @ drop 15 ds" by simp
  with r have ds: "ds = w @ [d16, d17]" by (simp add: w_def)
  from assms(1) have lw: "length w = 15" by (simp add: w_def)
  from ds assms(2) have dg: "list_all is_digit w" "is_digit d16" "is_digit d17" by simp_all
  have 1: "bt (Rep 15 rx_unit) (ds @ post) = [d16 # d17 # post]"
    using bt_Rep_unit[OF lw dg(1,2), of "d17 # post"] ds by simp
  from bt_Star_unit_last[OF dg(3) assms(3)] obtain X where
    X: "bt (Star rx_unit) (d17 # post) = X @ [d17 # post]"
    "\<forall>x \<in> set X. list_all (\<lambda>c. \<not> is_digit c) x" by blast
  have 2: "bt (Star rx_unit) (d16 # d17 # post) = X @ [d17 # post, d16 # d17 # post]"
    using dg(2,3) X(1) by (subst bt.simps(6)) (simp add: bt_unit_digits)
  from X(2) have 3: "concat (map (bt (Chr is_digit)) X) = []"
    by (intro concat_map_nil) (simp add: bt_digit_no_digit)
  from ds have l: "last ds = d17" by simp
  from 1 2 3 dg l show ?thesis
    by (simp add: rx_digit_run_unit del: Rep.simps)
qed

lemma rx_exec_skip_prefix:
  assumes "\<And>c s. \<not> q c \<Longrightarrow> bt r (c # s) = []" "list_all (\<lambda>c. \<not> q c) pre" "s \<noteq> []"
  shows "rx_exec r (pre @ s) = map_option (\<lambda>(i, n). (length pre + i, n)) (rx_exec r s)"
  using assms(2)
proof (induction pre)
  case Nil
  then show ?case by (simp add: option.map_ident case_prod_unfold)
next
  case (Cons c pre)
  then have "bt r (c # pre @ s) = []" using assms(1) by simp
  from rx_exec_skip[OF this] Cons show ?case
    by (simp add: option.map_comp comp_def case_prod_unfold)
qed

lemma match_all_17:
  assumes "length ds = 17" "list_all is_digit ds"
    and "list_all (\<lambda>c. \<not> is_digit c) pre" "list_all (\<lambda>c. \<not> is_digit c) post"
  shows "\<exists>ms. rx_match_all rx_digit_run (pre @ ds @ post) = ds # ms"
proof -
  from assms(1) have ne: "ds @ post \<noteq> []" by auto
  have "rx_exec rx_digit_run (ds @ post) = Some (0, length (ds @ post) - length post)"
    using bt_digit_run_17[OF assms(1,2,4)] by (intro rx_exec_here) simp
  with assms(1) have "rx_exec rx_digit_run (ds @ post) = Some (0, 17)" by simp
  with rx_exec_skip_prefix[of is_digit rx_digit_run pre "ds @ post", OF bt_digit_run_nondigit assms(3) ne]
  have e: "rx_exec rx_digit_run (pre @ ds @ post) = Some (length pre, 17)" by simp
  from assms(1) have "take 17 (drop (length pre) (pre @ ds @ post)) = ds" by simp
  with e show ?thesis by (subst rx_match_all.simps) simp
qed

section \<open>The capture on the text of the scenario\<close>

lemma no_digit_head_squeeze: "no_digit_head s \<Longrightarrow> no_digit_head (squeeze p [0x20] s)"
  by (cases s) (auto simp: no_digit_head_def squeeze.simps is_digit_def)

lemma no_digit_head_prefix: "no_digit_head (a @ b) \<Longrightarrow> no_digit_head a"
  by (cases a) (auto simp: no_digit_head_def)

lemma no_digit_head_trim_right: "no_digit_head s \<Longrightarrow> no_digit_head (rev (dropWhile q (rev s)))"
proof -
  assume h: "no_digit_head s"
  have "rev s = takeWhile q (rev s) @ dropWhile q (rev s)" by simp
  then have "rev (rev s) = rev (takeWhile q (rev s) @ dropWhile q (rev s))" by (rule arg_cong)
  then have "s = rev (dropWhile q (rev s)) @ rev (takeWhile q (rev s))"
    by (simp only: rev_rev_ident rev_append)
  with h show ?thesis by (metis no_digit_head_prefix)
qed

lemma is_digit_numeral: "is_digit (numeral k) = (0x30 \<le> (numeral k :: cu) \<and> (numeral k :: cu) \<le> 0x39)"
  by (simp add: is_digit_def)

lemma capture_scenario:
  assumes "no_digit_head post"
  shows "rx_exec_group rx_nik_label rx_nik_group (str ''NIK: 3201 0145 0390 0021'' @ post)
     = Some (str ''3201 0145 0390 0021'')"
proof (cases post)
  case Nil
  then show ?thesis by (simp add: ev)
next
  case (Cons c p)
  with assms have "\<not> is_digit c" by (simp add: no_digit_head_def)
  with Cons show ?thesis
    by (simp add: str_def same_ci_def ascii_upper_def is_space_def is_label_sep_def is_sep_def
        is_digit_numeral Opt_def RepRange_def word_ci_def rx_nik_label_def rx_d13_def rx_sep_opt_def rx_nik_group_def
        rx_exec_group_mt mt_eval Rep_numeral UpTo_numeral)
qed

section \<open>A labeled number of 16 digits\<close>

lemma bt_hd_mt: "mt r s Some = Some t \<Longrightarrow> \<exists>ts. bt r s = t # ts"
  by (cases "bt r s") (auto simp: mt_bt split: option.splits)

lemma sixteen: "length xs = 16 \<Longrightarrow>
  \<exists>x1 x2 x3 x4 x5 x6 x7 x8 x9 x10 x11 x12 x13 x14 x15 x16.
     xs = [x1, x2, x3, x4, x5, x6, x7, x8, x9, x10, x11, x12, x13, x14, x15, x16]"
  by (simp add: eval_nat_numeral length_Suc_conv) blast

lemma sep_digit: "is_digit c \<Longrightarrow> is_sep c = False"
  by (simp add: digit_not_sep)

lemmas group_ev = Opt_def RepRange_def rx_d13_def rx_sep_opt_def rx_nik_group_def
  mt_eval Rep_numeral UpTo_numeral

lemma group_sixteen:
  assumes "length ds = 16" "list_all is_digit ds" "closes post"
  shows "\<exists>ts. bt rx_nik_group (ds @ post) = post # ts"
proof -
  from sixteen[OF assms(1)] obtain x1 x2 x3 x4 x5 x6 x7 x8 x9 x10 x11 x12 x13 x14 x15 x16
    where ds: "ds = [x1, x2, x3, x4, x5, x6, x7, x8, x9, x10, x11, x12, x13, x14, x15, x16]"
    by blast
  with assms(2) have d: "is_digit x1" "is_digit x2" "is_digit x3" "is_digit x4" "is_digit x5"
    "is_digit x6" "is_digit x7" "is_digit x8" "is_digit x9" "is_digit x10" "is_digit x11"
    "is_digit x12" "is_digit x13" "is_digit x14" "is_digit x15" "is_digit x16" by simp_all
  have "mt rx_nik_group (ds @ post) Some = Some post"
  proof (cases post)
    case Nil
    with d ds show ?thesis by (simp add: group_ev sep_digit)
  next
    case p1: (Cons c t)
    with assms(3) have c: "\<not> is_digit c" by (simp add: closes_def)
    show ?thesis
    proof (cases "is_sep c")
      case False
      with d ds p1 c show ?thesis by (simp add: group_ev sep_digit)
    next
      case True
      show ?thesis
      proof (cases t)
        case Nil
        with d ds p1 c True show ?thesis by (simp add: group_ev sep_digit)
      next
        case (Cons c' t')
        with assms(3) p1 True have "\<not> is_digit c'" by (simp add: closes_def)
        with d ds p1 c True Cons show ?thesis by (simp add: group_ev sep_digit)
      qed
    qed
  qed
  then show ?thesis by (rule bt_hd_mt)
qed

lemma bt_Star_Chr_self: "s \<in> set (bt (Star (Chr p)) s)"
  by (cases s) (simp_all add: bt_Star_Chr)

lemma bt_Star_Chr_all: "list_all p w \<Longrightarrow> t \<in> set (bt (Star (Chr p)) (w @ t))"
  by (induction w) (simp_all add: bt_Star_Chr bt_Star_Chr_self)

lemma label_seps_complete: "list_all is_label_sep w \<Longrightarrow> t \<in> set (bt rx_label_seps (w @ t))"
proof -
  assume w: "list_all is_label_sep w"
  have 1: "w @ t \<in> set (bt (Star (Chr is_space)) (w @ t))" by (rule bt_Star_Chr_self)
  have 2: "t \<in> set (bt (Star (Chr is_label_sep)) (w @ t))" using w by (rule bt_Star_Chr_all)
  have 3: "t \<in> set (bt (Star (Chr is_space)) t)" by (rule bt_Star_Chr_self)
  from 1 2 3 show ?thesis
    unfolding rx_label_seps_def by (simp del: bt.simps(6)) blast
qed

lemma within_label_seps: "within is_label_sep rx_label_seps"
  by (simp add: rx_label_seps_def is_label_sep_def)

lemma label_sep_not_digit: "is_label_sep c \<Longrightarrow> \<not> is_digit c"
  using digit_not_space[of c] unfolding is_label_sep_def is_digit_def
  by (auto simp: word_le_nat_alt)

lemma bt_nik_label_seps:
  "same_ci CHR ''N'' a \<Longrightarrow> same_ci CHR ''I'' b \<Longrightarrow> same_ci CHR ''K'' c \<Longrightarrow>
     bt rx_nik_label (a # b # c # s) = bt rx_label_seps s"
  by (simp add: rx_nik_label_def rx_label_seps_def word_ci_def)

lemma bt_group_nondigit: "\<not> is_digit c \<Longrightarrow> bt rx_nik_group (c # s) = []"
  by (simp add: rx_nik_group_def rx_d13_def RepRange_def)

lemma bt_group_Nil: "bt rx_nik_group [] = []"
  by (simp add: rx_nik_group_def rx_d13_def RepRange_def)

lemma label_seps_sound:
  assumes "t \<in> set (bt rx_label_seps (w @ d # r))" "list_all is_label_sep w" "is_digit d"
  shows "t = d # r \<or> bt rx_nik_group t = []"
proof -
  from bt_sound[OF assms(1) within_label_seps, of is_digit] obtain v where
    v: "w @ d # r = v @ t" "list_all is_label_sep v" by blast
  from v(1) obtain us where "(w = v @ us \<and> us @ d # r = t) \<or> (w @ us = v \<and> d # r = us @ t)"
    by (auto simp: append_eq_append_conv2)
  then show ?thesis
  proof
    assume a: "w = v @ us \<and> us @ d # r = t"
    show ?thesis
    proof (cases us)
      case Nil
      with a show ?thesis by simp
    next
      case (Cons x xs)
      with a assms(2) have "is_label_sep x" by simp
      then have "\<not> is_digit x" by (rule label_sep_not_digit)
      with a Cons show ?thesis by (auto simp: bt_group_nondigit)
    qed
  next
    assume a: "w @ us = v \<and> d # r = us @ t"
    show ?thesis
    proof (cases us)
      case Nil
      with a show ?thesis by simp
    next
      case (Cons x xs)
      with a have "x = d" by simp
      with a Cons v(2) have "is_label_sep d" by auto
      with assms(3) show ?thesis using label_sep_not_digit by blast
    qed
  qed
qed

lemma concat_first:
  assumes "x \<in> set xs" "f x = y # ys" "\<And>z. z \<in> set xs \<Longrightarrow> z = x \<or> f z = []"
  shows "\<exists>zs. concat (map f xs) = y # zs"
  using assms
proof (induction xs)
  case Nil
  then show ?case by simp
next
  case (Cons z xs)
  show ?case
  proof (cases "z = x")
    case True
    with Cons.prems(2) show ?thesis by simp
  next
    case False
    with Cons.prems(3)[of z] have fz: "f z = []" by simp
    from False Cons.prems(1) have "x \<in> set xs" by simp
    from Cons.IH[OF this Cons.prems(2)] Cons.prems(3) fz show ?thesis by simp
  qed
qed

lemma capture_labeled:
  assumes "same_ci CHR ''N'' a" "same_ci CHR ''I'' b" "same_ci CHR ''K'' c"
    and "list_all is_label_sep w" "length ds = 16" "list_all is_digit ds" "closes post"
  shows "rx_exec_group rx_nik_label rx_nik_group (a # b # c # w @ ds @ post) = Some ds"
proof -
  from assms(5) obtain d r where ds: "ds = d # r" by (cases ds) auto
  with assms(6) have d: "is_digit d" by simp
  let ?R = "ds @ post"
  let ?f = "\<lambda>t. map (\<lambda>u. (t, u)) (bt rx_nik_group t)"
  from group_sixteen[OF assms(5,6,7)] obtain ts where g: "bt rx_nik_group ?R = post # ts"
    by blast
  have L: "bt rx_nik_label (a # b # c # w @ ?R) = bt rx_label_seps (w @ ?R)"
    using assms(1,2,3) by (rule bt_nik_label_seps)
  have m: "?R \<in> set (bt rx_label_seps (w @ ?R))"
    using assms(4) by (rule label_seps_complete)
  have o: "\<And>z. z \<in> set (bt rx_label_seps (w @ ?R)) \<Longrightarrow> z = ?R \<or> ?f z = []"
    using label_seps_sound[of _ w d "r @ post"] assms(4) d ds by auto
  from g have fR: "?f ?R = (?R, post) # map (\<lambda>u. (?R, u)) ts" by simp
  from concat_first[of ?R "bt rx_label_seps (w @ ?R)" ?f, OF m fR o] obtain zs where
    "bt2 rx_nik_label rx_nik_group (a # b # c # w @ ?R) = (?R, post) # zs"
    by (auto simp: bt2_def L)
  then show ?thesis by (simp add: rx_exec_group.simps)
qed

lemma squeeze_all: "list_all p s \<Longrightarrow> squeeze p rep s = (if s = [] then [] else rep)"
proof (cases s)
  case Nil
  then show ?thesis by simp
next
  case (Cons c t)
  assume "list_all p s"
  with Cons have pc: "p c" and dw: "dropWhile p t = []"
    by (simp_all add: list_all_iff dropWhile_eq_Nil_conv)
  from pc have "squeeze p rep (c # t) = rep @ squeeze p rep (dropWhile p t)"
    by (simp add: squeeze.simps)
  also have "\<dots> = rep @ squeeze p rep []" by (simp only: dw)
  finally show ?thesis using Cons by simp
qed

lemma trim_right_all: "list_all q s \<Longrightarrow> rev (dropWhile q (rev s)) = []"
  by (simp add: list_all_iff)

lemma trim_right_keep:
  "\<not> q c \<Longrightarrow> rev (dropWhile q (rev (a @ c # b))) = a @ c # rev (dropWhile q (rev b))"
  using dropWhile_app_hd[of "c # rev a" q "rev b"] by simp

lemma squeeze_Nil_iff: "rep \<noteq> [] \<Longrightarrow> squeeze p rep s = [] \<longleftrightarrow> s = []"
  by (cases s) (simp_all add: squeeze.simps)

lemma closes_cleaned:
  assumes "ends_number post"
  shows "closes (rev (dropWhile is_space (rev (squeeze is_space [0x20] (squeeze is_nlcr [0x20] post)))))"
proof (cases post)
  case Nil
  then show ?thesis by (simp add: closes_def)
next
  case (Cons c t)
  with assms have c: "\<not> is_digit c" by (simp add: ends_number_def)
  show ?thesis
  proof (cases "is_space c")
    case False
    then have nc: "\<not> is_nlcr c" using nlcr_space by blast
    define r2 where "r2 = rev (dropWhile is_space (rev (squeeze is_space [0x20] (squeeze is_nlcr [0x20] t))))"
    have 1: "squeeze is_space [0x20] (squeeze is_nlcr [0x20] post)
        = c # squeeze is_space [0x20] (squeeze is_nlcr [0x20] t)"
      using False nc Cons by (simp add: squeeze.simps)
    have 2: "rev (dropWhile is_space (rev (squeeze is_space [0x20] (squeeze is_nlcr [0x20] post))))
        = c # r2"
    proof -
      from False have "rev (dropWhile is_space (rev ([] @ c # squeeze is_space [0x20] (squeeze is_nlcr [0x20] t))))
          = [] @ c # r2"
        unfolding r2_def by (rule trim_right_keep[of is_space c])
      then show ?thesis by (simp only: 1 append_Nil)
    qed
    show ?thesis
    proof (cases "c = 0x2D")
      case True
      with assms Cons False have "no_digit_head t" by (simp add: ends_number_def)
      then have "no_digit_head r2"
        unfolding r2_def by (intro no_digit_head_trim_right no_digit_head_squeeze)
      with c show ?thesis by (simp add: 2 closes_def no_digit_head_def split: list.splits)
    next
      case d: False
      with False have "\<not> is_sep c" by (simp add: is_sep_def)
      with c show ?thesis by (simp add: 2 closes_def)
    qed
  next
    case True
    define w where "w = takeWhile is_space post"
    define r where "r = dropWhile is_space post"
    have post: "post = w @ r" by (simp add: w_def r_def)
    have w: "list_all is_space w" by (auto simp: w_def list_all_iff dest: set_takeWhileD)
    from True Cons have wne: "w \<noteq> []" by (simp add: w_def)
    from True Cons have rt: "r = dropWhile is_space t" by (simp add: r_def)
    with assms Cons True have ndh: "no_digit_head r" by (simp add: ends_number_def)
    define w1 where "w1 = squeeze is_nlcr [0x20] w"
    have "set w1 \<subseteq> set w \<union> {0x20}" unfolding w1_def using set_squeeze[of is_nlcr "[0x20]" w] by simp
    with w have w1: "list_all is_space w1" using sp_space by (auto simp: list_all_iff)
    from wne have w1ne: "w1 \<noteq> []" by (simp add: w1_def squeeze_Nil_iff)
    show ?thesis
    proof (cases r)
      case Nil
      with post w have "post = w" by simp
      then have "squeeze is_space [0x20] (squeeze is_nlcr [0x20] post) = squeeze is_space [0x20] w1"
        by (simp add: w1_def)
      also have "list_all is_space \<dots>" using w1 sp_space by (simp add: squeeze_all)
      finally show ?thesis by (simp add: trim_right_all closes_def)
    next
      case r: (Cons c' r')
      with ndh have c': "\<not> is_digit c'" by (simp add: no_digit_head_def)
      from r have "c' = hd (dropWhile is_space post)" by (simp add: r_def)
      moreover from r have "dropWhile is_space post \<noteq> []" by (simp add: r_def)
      ultimately have sc: "\<not> is_space c'" using hd_dropWhile by metis
      then have nc: "\<not> is_nlcr c'" using nlcr_space by blast
      define r1 where "r1 = squeeze is_nlcr [0x20] r'"
      define r2 where "r2 = squeeze is_space [0x20] r1"
      have 1: "squeeze is_nlcr [0x20] post = w1 @ c' # r1"
        using squeeze_app_hd[of "c' # r'" is_nlcr "[0x20]" w] nc post r
        by (simp add: squeeze.simps w1_def r1_def)
      have 2: "squeeze is_space [0x20] (w1 @ c' # r1) = squeeze is_space [0x20] w1 @ c' # r2"
        using squeeze_app_hd[of "c' # r1" is_space "[0x20]" w1] sc
        by (simp add: squeeze.simps r2_def)
      have 3: "squeeze is_space [0x20] w1 = [0x20]"
        using squeeze_all[OF w1, of "[0x20]"] w1ne by simp
      have sp: "\<not> is_digit 0x20" by (simp add: is_digit_def)
      have 4: "\<And>x y. rev (dropWhile is_space (rev (x @ c' # y)))
          = x @ c' # rev (dropWhile is_space (rev y))"
        using trim_right_keep[of is_space c'] sc by simp
      have full: "squeeze is_space [0x20] (squeeze is_nlcr [0x20] post) = [0x20] @ c' # r2"
        by (simp only: 1 2 3)
      have "rev (dropWhile is_space (rev (squeeze is_space [0x20] (squeeze is_nlcr [0x20] post))))
          = [0x20] @ c' # rev (dropWhile is_space (rev r2))"
        by (simp only: full 4)
      with c' sp show ?thesis by (simp add: closes_def)
    qed
  qed
qed

lemma label_not_space:
  "same_ci CHR ''N'' a \<Longrightarrow> \<not> is_space a" "same_ci CHR ''K'' c \<Longrightarrow> \<not> is_space c"
  "same_ci CHR ''I'' b \<Longrightarrow> \<not> is_space b"
  by (auto simp: same_ci_def ascii_upper_def is_space_def split: if_splits)

lemma label_seps_cleaned:
  "list_all is_label_sep s \<Longrightarrow>
     list_all is_label_sep (squeeze is_space [0x20] (squeeze is_nlcr [0x20] s))"
proof -
  assume a: "list_all is_label_sep s"
  have sp: "is_label_sep 0x20" by (simp add: is_label_sep_def is_space_def)
  have "set (squeeze is_space [0x20] (squeeze is_nlcr [0x20] s))
      \<subseteq> set (squeeze is_nlcr [0x20] s) \<union> {0x20}"
    using set_squeeze[of is_space "[0x20]"] by simp
  also have "\<dots> \<subseteq> set s \<union> {0x20}"
    using set_squeeze[of is_nlcr "[0x20]" s] by auto
  finally show ?thesis using a sp by (auto simp: list_all_iff)
qed

section \<open>The first match of the label pattern\<close>

text \<open>A match that ends inside \<open>y\<close> is a match in \<open>y\<close> alone.\<close>

lemma bt_local:
  "u \<in> set (bt r s) \<Longrightarrow> s = y @ z \<Longrightarrow> length z \<le> length u
     \<Longrightarrow> \<exists>u0. u = u0 @ z \<and> u0 \<in> set (bt r y)"
proof (induction r s arbitrary: u y z rule: bt.induct)
  case (1 s)
  then show ?case by simp
next
  case (2 p)
  then show ?case by simp
next
  case (3 p c s)
  from "3.prems"(1) have pc: "p c" and u: "u = s" by (auto split: if_splits)
  show ?case
  proof (cases y)
    case Nil
    with "3.prems"(2,3) u show ?thesis by auto
  next
    case (Cons c' y')
    with "3.prems"(2) have "c' = c" "s = y' @ z" by simp_all
    with u pc Cons show ?thesis by simp
  qed
next
  case (4 a b s)
  from "4.prems"(1) obtain t where t: "t \<in> set (bt a s)" and u: "u \<in> set (bt b t)" by auto
  from bt_length[OF u] "4.prems"(3) have "length z \<le> length t" by simp
  from "4.IH"(1)[OF t "4.prems"(2) this] obtain t0 where t0: "t = t0 @ z" "t0 \<in> set (bt a y)"
    by blast
  from "4.IH"(2)[OF t u t0(1) "4.prems"(3)] obtain u0 where "u = u0 @ z" "u0 \<in> set (bt b t0)"
    by blast
  with t0(2) show ?case by auto
next
  case (5 a b s)
  from "5.prems"(1) consider "u \<in> set (bt a s)" | "u \<in> set (bt b s)" by auto
  then show ?case
  proof cases
    case 1
    from "5.IH"(1)[OF 1 "5.prems"(2,3)] show ?thesis by auto
  next
    case 2
    from "5.IH"(2)[OF 2 "5.prems"(2,3)] show ?thesis by auto
  qed
next
  case (6 a s)
  from "6.prems"(1) consider "u = s"
    | t where "t \<in> set (bt a s)" "length t < length s" "u \<in> set (bt (Star a) t)"
    using bt_Star_mem[of u a s] by auto
  then show ?case
  proof cases
    case 1
    with "6.prems"(2) have "u = y @ z" by simp
    moreover have "y \<in> set (bt (Star a) y)" using bt_Star_mem[of y a y] by simp
    ultimately show ?thesis by blast
  next
    case 2
    from bt_length[OF 2(3)] "6.prems"(3) have lz: "length z \<le> length t" by simp
    from "6.IH"(1)[OF 2(1) "6.prems"(2) lz] obtain t0 where
      t0: "t = t0 @ z" "t0 \<in> set (bt a y)" by blast
    from 2(1,2) have "t \<in> set (filter (\<lambda>t. length t < length s) (bt a s))" by simp
    from "6.IH"(2)[OF this 2(3) t0(1) "6.prems"(3)] obtain u0 where
      u0: "u = u0 @ z" "u0 \<in> set (bt (Star a) t0)" by blast
    from 2(2) t0(1) "6.prems"(2) have "length t0 < length y" by simp
    with t0(2) u0(2) have "u0 \<in> set (bt (Star a) y)" using bt_Star_mem[of u0 a y] by auto
    with u0(1) show ?thesis by blast
  qed
qed

text \<open>
  A match of the label pattern and the group begins with the three letters and goes on with
  label separators and digits only, so it cannot run over a letter N that comes later.
\<close>

lemma same_ci_N: "same_ci CHR ''N'' a \<longleftrightarrow> a = 0x4E \<or> a = 0x6E"
  by (auto simp: same_ci_def ascii_upper_def split: if_splits)

lemma same_ci_I: "same_ci CHR ''I'' a \<longleftrightarrow> a = 0x49 \<or> a = 0x69"
  by (auto simp: same_ci_def ascii_upper_def split: if_splits)

lemma same_ci_K: "same_ci CHR ''K'' a \<longleftrightarrow> a = 0x4B \<or> a = 0x6B"
  by (auto simp: same_ci_def ascii_upper_def split: if_splits)

lemma N_other:
  assumes "same_ci CHR ''N'' a"
  shows "\<not> same_ci CHR ''I'' a" "\<not> same_ci CHR ''K'' a" "\<not> is_label_sep a" "\<not> is_digit a"
  using assms
  by (auto simp: same_ci_N same_ci_I same_ci_K is_label_sep_def is_space_def is_digit_def)

lemma bt_nik_label_shape:
  "t \<in> set (bt rx_nik_label s) \<Longrightarrow>
     \<exists>n i k s3. s = n # i # k # s3 \<and> same_ci CHR ''N'' n \<and> same_ci CHR ''I'' i
        \<and> same_ci CHR ''K'' k \<and> t \<in> set (bt rx_label_seps s3)"
proof -
  assume t: "t \<in> set (bt rx_nik_label s)"
  show ?thesis
  proof (cases s)
    case Nil
    with t show ?thesis by (simp add: rx_nik_label_def word_ci_def)
  next
    case s1: (Cons a s1)
    show ?thesis
    proof (cases s1)
      case Nil
      with t s1 show ?thesis by (simp add: rx_nik_label_def word_ci_def)
    next
      case s2: (Cons b s2)
      show ?thesis
      proof (cases s2)
        case Nil
        with t s1 s2 show ?thesis by (simp add: rx_nik_label_def word_ci_def)
      next
        case (Cons c s3)
        with t s1 s2 have "same_ci CHR ''N'' a \<and> same_ci CHR ''I'' b \<and> same_ci CHR ''K'' c"
          by (auto simp: rx_nik_label_def word_ci_def split: if_splits)
        with t s1 s2 Cons show ?thesis by (simp add: bt_nik_label_seps)
      qed
    qed
  qed
qed

lemma label_group_shape:
  assumes "t \<in> set (bt rx_nik_label s)" "u \<in> set (bt rx_nik_group t)"
  shows "\<exists>n i k m. s = n # i # k # m @ u \<and> same_ci CHR ''N'' n \<and> same_ci CHR ''I'' i
     \<and> same_ci CHR ''K'' k \<and> list_all (\<lambda>c. is_label_sep c \<or> is_digit c) m"
proof -
  from bt_nik_label_shape[OF assms(1)] obtain n i k s3 where
    s: "s = n # i # k # s3" and l: "same_ci CHR ''N'' n" "same_ci CHR ''I'' i" "same_ci CHR ''K'' k"
    and t: "t \<in> set (bt rx_label_seps s3)" by blast
  from bt_sound[OF t within_label_seps, of is_digit] obtain w where
    w: "s3 = w @ t" "list_all is_label_sep w" by blast
  from bt_sound[OF assms(2) within_nik_group, of is_digit] obtain w2 where
    w2: "t = w2 @ u" "list_all (\<lambda>c. is_digit c \<or> is_sep c) w2" by blast
  have "\<And>c. is_sep c \<Longrightarrow> is_label_sep c" by (auto simp: is_sep_def is_label_sep_def)
  with w(2) w2(2) have "list_all (\<lambda>c. is_label_sep c \<or> is_digit c) (w @ w2)"
    by (auto simp: list_all_iff)
  with s l w(1) w2(1) show ?thesis by (intro exI[of _ n] exI[of _ i] exI[of _ k] exI[of _ "w @ w2"]) simp
qed

lemma match_before_label:
  assumes "same_ci CHR ''N'' a" "y \<noteq> []"
    and "t \<in> set (bt rx_nik_label (y @ a # r))" "u \<in> set (bt rx_nik_group t)"
  shows "length (a # r) \<le> length u"
proof (rule ccontr)
  assume "\<not> length (a # r) \<le> length u"
  then have less: "length u < length (a # r)" by simp
  from label_group_shape[OF assms(3,4)] obtain n i k m where
    s: "y @ a # r = n # i # k # m @ u" and l: "same_ci CHR ''I'' i" "same_ci CHR ''K'' k"
    and m: "list_all (\<lambda>c. is_label_sep c \<or> is_digit c) m" by blast
  from s have "y @ a # r = (n # i # k # m) @ u" by simp
  then have "\<exists>us. (y = (n # i # k # m) @ us \<and> us @ a # r = u)
      \<or> (y @ us = n # i # k # m \<and> a # r = us @ u)"
    unfolding append_eq_append_conv2 by blast
  then have "\<exists>us. y @ us = n # i # k # m \<and> a # r = us @ u"
    using less by auto
  then obtain us where us: "y @ us = n # i # k # m" "a # r = us @ u" by blast
  with less obtain us' where "us = a # us'" by (cases us) auto
  with us(1) have e: "y @ a # us' = n # i # k # m" by simp
  from assms(2) obtain y0 y1 where y: "y = y0 # y1" by (cases y) auto
  with e have e1: "y1 @ a # us' = i # k # m" by simp
  show False
  proof (cases y1)
    case Nil
    with e1 l(1) assms(1) show False using N_other(1) by auto
  next
    case c2: (Cons y2 y3)
    with e1 have e2: "y3 @ a # us' = k # m" by simp
    show False
    proof (cases y3)
      case Nil
      with e2 l(2) assms(1) show False using N_other(2) by auto
    next
      case (Cons y4 y5)
      with e2 have "m = y5 @ a # us'" by simp
      with m have "is_label_sep a \<or> is_digit a" by simp
      with assms(1) show False using N_other(3,4) by blast
    qed
  qed
qed

lemma no_match_before_label:
  assumes "same_ci CHR ''N'' a" "y \<noteq> []" "bt2 rx_nik_label rx_nik_group (y @ [a, b, c]) = []"
  shows "bt2 rx_nik_label rx_nik_group (y @ a # b # c # r) = []"
proof (rule ccontr)
  assume "bt2 rx_nik_label rx_nik_group (y @ a # b # c # r) \<noteq> []"
  then obtain t u where "(t, u) \<in> set (bt2 rx_nik_label rx_nik_group (y @ a # b # c # r))"
    by (cases "bt2 rx_nik_label rx_nik_group (y @ a # b # c # r)") auto
  then have t: "t \<in> set (bt rx_nik_label (y @ a # b # c # r))" and u: "u \<in> set (bt rx_nik_group t)"
    by (auto simp: bt2_def)
  from match_before_label[OF assms(1,2) t u] have lu: "length r \<le> length u" by simp
  from bt_length[OF u] lu have lt: "length r \<le> length t" by simp
  have s: "y @ a # b # c # r = (y @ [a, b, c]) @ r" by simp
  from bt_local[OF t s lt] obtain t0 where t0: "t = t0 @ r" "t0 \<in> set (bt rx_nik_label (y @ [a, b, c]))"
    by blast
  from bt_local[OF u t0(1) lu] obtain u0 where "u0 \<in> set (bt rx_nik_group t0)" by blast
  with t0(2) have "(t0, u0) \<in> set (bt2 rx_nik_label rx_nik_group (y @ [a, b, c]))"
    by (auto simp: bt2_def)
  with assms(3) show False by simp
qed

lemma exec_group_first_label:
  assumes "same_ci CHR ''N'' a"
    and "rx_exec_group rx_nik_label rx_nik_group (p @ [a, b, c]) = None"
  shows "rx_exec_group rx_nik_label rx_nik_group (p @ a # b # c # r)
     = rx_exec_group rx_nik_label rx_nik_group (a # b # c # r)"
  using assms(2)
proof (induction p)
  case Nil
  then show ?case by simp
next
  case (Cons x p)
  from Cons.prems have e: "bt2 rx_nik_label rx_nik_group ((x # p) @ [a, b, c]) = []"
    and n: "rx_exec_group rx_nik_label rx_nik_group (p @ [a, b, c]) = None"
    by (auto simp: rx_exec_group.simps split: list.splits)
  from no_match_before_label[OF assms(1) _ e, of r]
  have "bt2 rx_nik_label rx_nik_group (x # p @ a # b # c # r) = []" by simp
  with Cons.IH[OF n] show ?case by (simp add: rx_exec_group.simps)
qed

lemma clean_before_label:
  assumes "\<not> is_space a" "\<not> is_space b" "\<not> is_space c"
  shows "clean_text (pre @ [a, b, c])
     = dropWhile is_space (squeeze is_space [0x20] (squeeze is_nlcr [0x20] pre)) @ [a, b, c]"
proof -
  from assms have n: "\<not> is_nlcr a" "\<not> is_nlcr b" "\<not> is_nlcr c" using nlcr_space by blast+
  have m: "[a, b, c] \<noteq> []" "\<not> is_space (hd [a, b, c])" "\<not> is_space (last [a, b, c])"
    "squeeze is_nlcr [0x20] [a, b, c] = [a, b, c]" "squeeze is_space [0x20] [a, b, c] = [a, b, c]"
    using assms n by (simp_all add: squeeze.simps)
  from clean_around[OF m, of pre "[]"] show ?thesis by simp
qed

text \<open>A text in which the letters N, I, K occur nowhere in a row has no match.\<close>

lemma label_needs_digit:
  assumes "t \<in> set (bt rx_nik_label s)" "u \<in> set (bt rx_nik_group t)"
  shows "\<exists>n i k r. s = n # i # k # r \<and> same_ci CHR ''N'' n \<and> same_ci CHR ''I'' i
     \<and> same_ci CHR ''K'' k \<and> r \<noteq> []"
proof -
  from bt_nik_label_shape[OF assms(1)] obtain n i k s3 where
    s: "s = n # i # k # s3" and l: "same_ci CHR ''N'' n" "same_ci CHR ''I'' i" "same_ci CHR ''K'' k"
    and t: "t \<in> set (bt rx_label_seps s3)" by blast
  from bt_sound[OF t within_label_seps, of is_digit] obtain w where w: "s3 = w @ t" by blast
  from assms(2) have "t \<noteq> []" using bt_group_Nil by auto
  with w have "s3 \<noteq> []" by simp
  with s l show ?thesis by blast
qed

lemma bt2_label_Nil:
  assumes "\<And>n i k r. s = n # i # k # r \<Longrightarrow> r \<noteq> [] \<Longrightarrow> same_ci CHR ''N'' n \<Longrightarrow>
     same_ci CHR ''I'' i \<Longrightarrow> same_ci CHR ''K'' k \<Longrightarrow> False"
  shows "bt2 rx_nik_label rx_nik_group s = []"
proof (rule ccontr)
  assume "bt2 rx_nik_label rx_nik_group s \<noteq> []"
  then obtain t u where "(t, u) \<in> set (bt2 rx_nik_label rx_nik_group s)"
    by (cases "bt2 rx_nik_label rx_nik_group s") auto
  then have "t \<in> set (bt rx_nik_label s)" "u \<in> set (bt rx_nik_group t)"
    by (auto simp: bt2_def)
  from label_needs_digit[OF this] assms show False by blast
qed

lemma exec_group_short: "length s \<le> 3 \<Longrightarrow> rx_exec_group rx_nik_label rx_nik_group s = None"
proof (induction s)
  case Nil
  have "bt2 rx_nik_label rx_nik_group [] = []" by (rule bt2_label_Nil) simp
  then show ?case by (simp add: rx_exec_group.simps)
next
  case (Cons x s)
  have "bt2 rx_nik_label rx_nik_group (x # s) = []"
  proof (rule bt2_label_Nil)
    fix n i k r
    assume "x # s = n # i # k # r" "r \<noteq> []"
    with Cons.prems show False by (cases r) auto
  qed
  with Cons show ?case by (simp add: rx_exec_group.simps)
qed

lemma no_nik_no_match:
  assumes "same_ci CHR ''N'' a"
  shows "\<not> has_nik p \<Longrightarrow> rx_exec_group rx_nik_label rx_nik_group (p @ [a, b, c]) = None"
proof (induction p)
  case Nil
  show ?case using exec_group_short[of "[a, b, c]"] by simp
next
  case (Cons x p)
  from Cons.prems have "\<not> has_nik p" using has_nik_suffix[of p "[x]"] by auto
  then have ih: "rx_exec_group rx_nik_label rx_nik_group (p @ [a, b, c]) = None" by (rule Cons.IH)
  have "bt2 rx_nik_label rx_nik_group (x # p @ [a, b, c]) = []"
  proof (rule bt2_label_Nil)
    fix n i k r
    assume e: "x # p @ [a, b, c] = n # i # k # r"
      and l: "same_ci CHR ''N'' n" "same_ci CHR ''I'' i" "same_ci CHR ''K'' k"
    show False
    proof (cases p)
      case Nil
      with e l(2) assms show False using N_other(1) by auto
    next
      case p1: (Cons y p')
      show False
      proof (cases p')
        case Nil
        with p1 e l(3) assms show False using N_other(2) by auto
      next
        case (Cons z p'')
        with p1 e l have "has_nik (x # p)" by auto
        with Cons.prems show False by blast
      qed
    qed
  qed
  with ih show ?case by (simp add: rx_exec_group.simps)
qed

lemma no_nik_not_found:
  assumes "same_ci CHR ''N'' a" "same_ci CHR ''I'' b" "same_ci CHR ''K'' c" "\<not> has_nik pre"
  shows "\<not> label_found (pre @ [a, b, c])"
proof -
  define q where "q = squeeze is_space [0x20] (squeeze is_nlcr [0x20] pre)"
  from assms(1,2,3) have ls: "\<not> is_space a" "\<not> is_space b" "\<not> is_space c"
    using label_not_space by blast+
  have c: "clean_text (pre @ [a, b, c]) = dropWhile is_space q @ [a, b, c]"
    unfolding q_def by (rule clean_before_label[OF ls])
  have "\<not> has_nik (dropWhile is_space q)"
  proof
    assume "has_nik (dropWhile is_space q)"
    then have "has_nik (takeWhile is_space q @ dropWhile is_space q)" by (rule has_nik_suffix)
    then have "has_nik q" by simp
    then have "has_nik (squeeze is_nlcr [0x20] pre)" unfolding q_def by (rule has_nik_squeeze)
    then have "has_nik pre" by (rule has_nik_squeeze)
    with assms(4) show False by blast
  qed
  from no_nik_no_match[OF assms(1) this] c show ?thesis by (simp add: label_found_def)
qed

section \<open>The claims about extractNIK\<close>

text \<open>
  C1. Whatever the text, an identity number that \<open>extractNIK\<close> returns has exactly 16
  code units and each of them is an ASCII digit, so it holds no separator.
\<close>

theorem extractNIK_sixteen_digits:
  "extractNIK text = Some nik \<Longrightarrow> length nik = 16 \<and> list_all is_digit nik"
  by (auto simp: extractNIK_def Let_def is_nik16_iff split: if_splits option.splits
      dest: method1_nik16 method2_nik16 method3_nik16)

theorem extractNIK_sixteen_digits_witness:
  "extractNIK (str ''NIK: 3201 0145 0390 0021'') = Some (str ''3201014503900021'')
   \<and> length (str ''3201014503900021'') = 16 \<and> list_all is_digit (str ''3201014503900021'')"
proof -
  have h: "extractNIK (str ''NIK: 3201 0145 0390 0021'') = Some (str ''3201014503900021'')"
    by (simp add: ev)
  from extractNIK_sixteen_digits[OF h] h show ?thesis by simp
qed

text \<open>
  C2, as the code has it. Let the text be \<open>pre\<close>, the letters N, I, K in any case, label
  separators (colon, period, white space, dash), 16 digits, and \<open>post\<close>. When the pattern
  of method 1 has no match in the text up to and with these three letters, so that \<open>match\<close>
  reports this label, and when \<open>post\<close> lets the number end (it is empty, or begins with
  white space that no digit follows, or with a dash that no digit follows, or with another
  code unit that is no digit), \<open>extractNIK\<close> returns these 16 digits, whatever other numbers
  and letters \<open>pre\<close> and \<open>post\<close> hold.
\<close>

theorem extractNIK_labeled_number:
  assumes "same_ci CHR ''N'' a" "same_ci CHR ''I'' b" "same_ci CHR ''K'' c"
    and "\<not> label_found (pre @ [a, b, c])"
    and "list_all is_label_sep seps"
    and "length ds = 16" "list_all is_digit ds"
    and "ends_number post"
  shows "extractNIK (pre @ [a, b, c] @ seps @ ds @ post) = Some ds"
proof -
  let ?sq = "\<lambda>s. squeeze is_space [0x20] (squeeze is_nlcr [0x20] s)"
  define pre' where "pre' = dropWhile is_space (?sq pre)"
  define seps' where "seps' = ?sq seps"
  define post' where "post' = rev (dropWhile is_space (rev (?sq post)))"
  let ?lab = "[a, b, c]"
  from assms(6) have ne: "ds \<noteq> []" by auto
  with assms(7) have "is_digit (hd ds)" "is_digit (last ds)" by (auto simp: list_all_iff)
  then have hl: "\<not> is_space (hd ds)" "\<not> is_space (last ds)"
    using digit_not_space by blast+
  from assms(7) have "list_all (\<lambda>c. \<not> is_space c) ds" "list_all (\<lambda>c. \<not> is_nlcr c) ds"
    using digit_not_space nlcr_space by (auto simp: list_all_iff)
  then have k: "squeeze is_nlcr [0x20] ds = ds" "squeeze is_space [0x20] ds = ds"
    by (simp_all add: squeeze_keep)
  have c1: "clean_text ((pre @ ?lab @ seps) @ ds @ post)
      = dropWhile is_space (?sq (pre @ ?lab @ seps)) @ ds @ post'"
    unfolding post'_def by (rule clean_around[OF ne hl k])
  from assms(1,2,3) have ls: "\<not> is_space a" "\<not> is_space b" "\<not> is_space c"
    using label_not_space by blast+
  then have ln: "\<not> is_nlcr a" "\<not> is_nlcr b" "\<not> is_nlcr c" using nlcr_space by blast+
  have l1: "squeeze is_nlcr [0x20] (pre @ a # b # c # seps)
      = squeeze is_nlcr [0x20] pre @ a # b # c # squeeze is_nlcr [0x20] seps"
    using squeeze_around[of ?lab is_nlcr "[0x20]" pre seps] ln by (simp add: squeeze.simps)
  have l2: "?sq (pre @ a # b # c # seps) = ?sq pre @ a # b # c # seps'"
    using squeeze_around[of ?lab is_space "[0x20]" "squeeze is_nlcr [0x20] pre"
        "squeeze is_nlcr [0x20] seps"] ls
    by (simp add: l1 squeeze.simps seps'_def)
  have l3: "dropWhile is_space (?sq (pre @ a # b # c # seps)) = pre' @ a # b # c # seps'"
    using dropWhile_app_hd[of "a # b # c # seps'" is_space "?sq pre"] ls
    by (simp add: l2 pre'_def)
  from c1 l3 have c: "clean_text (pre @ ?lab @ seps @ ds @ post)
      = pre' @ a # b # c # seps' @ ds @ post'" by simp
  have "clean_text (pre @ ?lab) = pre' @ ?lab"
    unfolding pre'_def by (rule clean_before_label[OF ls])
  with assms(4) have p1: "rx_exec_group rx_nik_label rx_nik_group (pre' @ ?lab) = None"
    by (simp add: label_found_def)
  have p2: "list_all is_label_sep seps'"
    unfolding seps'_def by (rule label_seps_cleaned[OF assms(5)])
  have p3: "closes post'"
    unfolding post'_def by (rule closes_cleaned[OF assms(8)])
  have "rx_exec_group rx_nik_label rx_nik_group (pre' @ a # b # c # seps' @ ds @ post')
      = rx_exec_group rx_nik_label rx_nik_group (a # b # c # seps' @ ds @ post')"
    by (rule exec_group_first_label[OF assms(1) p1])
  with capture_labeled[OF assms(1,2,3) p2 assms(6,7) p3] c
  have g: "rx_exec_group rx_nik_label rx_nik_group (clean_text (pre @ ?lab @ seps @ ds @ post))
      = Some ds" by simp
  from assms(7) have f: "filter is_digit ds = ds" by (simp add: list_all_iff)
  from method1_capture[OF g] f assms(6) show ?thesis
    by (simp add: extractNIK_def)
qed

theorem extractNIK_labeled_number_witness:
  "same_ci CHR ''N'' (of_char CHR ''N'') \<and> same_ci CHR ''I'' (of_char CHR ''I'')
   \<and> same_ci CHR ''K'' (of_char CHR ''K'')
   \<and> \<not> label_found (str ''PROVINSI JAWA BARAT '' @ str ''NIK'')
   \<and> list_all is_label_sep (str '' : '')
   \<and> length (str ''1234567890123456'') = 16 \<and> list_all is_digit (str ''1234567890123456'')
   \<and> ends_number (str '' Nama 9999999999999999'')
   \<and> extractNIK (str ''PROVINSI JAWA BARAT '' @ str ''NIK'' @ str '' : '' @ str ''1234567890123456''
         @ str '' Nama 9999999999999999'')
       = Some (str ''1234567890123456'')"
proof -
  have l: "str ''NIK'' = [of_char CHR ''N'', of_char CHR ''I'', of_char CHR ''K'']"
    by (simp add: str_def)
  have h1: "same_ci CHR ''N'' (of_char CHR ''N'')" by (simp add: same_ci_def)
  have h2: "same_ci CHR ''I'' (of_char CHR ''I'')" by (simp add: same_ci_def)
  have h3: "same_ci CHR ''K'' (of_char CHR ''K'')" by (simp add: same_ci_def)
  have h4': "\<not> label_found (str ''PROVINSI JAWA BARAT '' @ str ''NIK'')"
    by (simp add: label_found_def ev)
  then have h4: "\<not> label_found (str ''PROVINSI JAWA BARAT ''
      @ [of_char CHR ''N'', of_char CHR ''I'', of_char CHR ''K''])"
    by (simp only: l simp_thms)
  have h5: "list_all is_label_sep (str '' : '')"
    by (simp add: str_def is_label_sep_def is_space_def)
  have h6: "length (str ''1234567890123456'') = 16" by (simp add: str_def)
  have h7: "list_all is_digit (str ''1234567890123456'')" by (simp add: str_def is_digit_def)
  have h8: "ends_number (str '' Nama 9999999999999999'')"
    by (simp add: ends_number_def no_digit_head_def str_def is_space_def is_digit_def)
  have "extractNIK (str ''PROVINSI JAWA BARAT '' @ str ''NIK'' @ str '' : '' @ str ''1234567890123456''
         @ str '' Nama 9999999999999999'') = Some (str ''1234567890123456'')"
    using extractNIK_labeled_number[OF h1 h2 h3 h4 h5 h6 h7 h8] by (simp only: l)
  with h1 h2 h3 h4' h5 h6 h7 h8 show ?thesis by blast
qed

text \<open>
  C2 as stated fails on either side of the labeled number. In the first text an earlier
  label has a shorter number after it: \<open>match\<close> reports that label, its capture has 8
  digits, method 1 gives nothing and method 2 returns the unrelated first run. In the second
  text the digit \<open>7\<close> after the labeled number is drawn into the capture, which then has 17
  digits, and again method 2 returns the first run.
\<close>

theorem extractNIK_labeled_not_returned:
  "extractNIK (str ''9999999999999999 NIK 12345678 NIK 1234567890123456'')
     = Some (str ''9999999999999999'')
   \<and> extractNIK (str ''9999999999999999 NIK 1234567890123456 7'')
     = Some (str ''9999999999999999'')"
  by (simp add: ev)

text \<open>
  C3, as the code has it. The run pattern of method 2 lets any number of white space and
  dash characters stand between two digits, and method 3 removes every non-digit from a
  token. So \<open>extractNIK\<close> returns nothing for a text that has neither a run of at least 16
  digits with only white space and dashes between them, nor a token, delimited by white
  space or dashes, that holds exactly 16 digits.
\<close>

theorem extractNIK_none:
  assumes "\<not> has_run 16 text" and "\<not> tok16 0 text"
  shows "extractNIK text = None"
proof (cases "text = []")
  case True
  then show ?thesis by (simp add: extractNIK_def)
next
  case False
  let ?c = "clean_text text"
  from assms(1) have r: "\<not> has_run 16 ?c" using has_run_clean by blast
  from assms(2) have k: "\<not> tok16 0 ?c" using tok16_clean by blast
  from r have 1: "method1 ?c = None" using method1_run by (cases "method1 ?c") auto
  from r have 2: "rx_match_all rx_digit_run ?c = []" by (rule method2_no_run)
  from k have 3: "method3 (rx_split rx_seps ?c) = None"
    using method3_token by (cases "method3 (rx_split rx_seps ?c)") auto
  from False 1 2 3 show ?thesis by (simp add: extractNIK_def)
qed

theorem extractNIK_none_witness:
  "\<not> has_run 16 (str ''NIK: 3201 0145 0390 002'') \<and> \<not> tok16 0 (str ''NIK: 3201 0145 0390 002'')
   \<and> extractNIK (str ''NIK: 3201 0145 0390 002'') = None"
proof -
  have h1: "\<not> has_run 16 (str ''NIK: 3201 0145 0390 002'')"
    by (simp add: str_def is_digit_def is_sep_def is_space_def run_from_numeral)
  have h2: "\<not> tok16 0 (str ''NIK: 3201 0145 0390 002'')"
    by (simp add: str_def is_digit_def is_sep_def is_space_def)
  from extractNIK_none[OF h1 h2] h1 h2 show ?thesis by simp
qed

text \<open>
  C3 as stated fails: this text has no two digits in a row, and method 3 returns the 16
  digits that are left of its only token when everything else is removed.
\<close>

theorem extractNIK_from_fragments:
  "\<not> has_run 2 (str ''1a2b3c4d5e6f7g8h9i0j1k2l3m4n5o6'')
   \<and> extractNIK (str ''1a2b3c4d5e6f7g8h9i0j1k2l3m4n5o6'') = Some (str ''1234567890123456'')"
  by (simp add: ev run_from_numeral)

text \<open>
  C4, as the code has it. A text that contains \<open>NIK: 3201 0145 0390 0021\<close> gives
  \<open>3201014503900021\<close> when the pattern of method 1 has no match in the text up to and with
  the letters \<open>NIK\<close> of this part, so that \<open>match\<close> reports this label, and when what
  follows the part is empty or begins with a code unit that is no digit, so that the last
  group of the capture ends with it.
\<close>

theorem extractNIK_scenario:
  assumes "\<not> label_found (pre @ str ''NIK'')" and "no_digit_head post"
  shows "extractNIK (pre @ str ''NIK: 3201 0145 0390 0021'' @ post)
     = Some (str ''3201014503900021'')"
proof -
  let ?m = "str ''NIK: 3201 0145 0390 0021''"
  let ?N = "of_char CHR ''N'' :: cu" and ?I = "of_char CHR ''I'' :: cu" and ?K = "of_char CHR ''K'' :: cu"
  let ?r = "str '': 3201 0145 0390 0021''"
  define pre' where "pre' = dropWhile is_space (squeeze is_space [0x20] (squeeze is_nlcr [0x20] pre))"
  define post' where
    "post' = rev (dropWhile is_space (rev (squeeze is_space [0x20] (squeeze is_nlcr [0x20] post))))"
  have m: "?m \<noteq> []" "\<not> is_space (hd ?m)" "\<not> is_space (last ?m)"
    "squeeze is_nlcr [0x20] ?m = ?m" "squeeze is_space [0x20] ?m = ?m"
    by (simp_all add: str_def is_space_def is_nlcr_def squeeze.simps)
  have c: "clean_text (pre @ ?m @ post) = pre' @ ?m @ post'"
    unfolding pre'_def post'_def by (rule clean_around[OF m])
  have l: "str ''NIK'' = [?N, ?I, ?K]" and ml: "?m = ?N # ?I # ?K # ?r"
    by (simp_all add: str_def)
  have N: "same_ci CHR ''N'' ?N" by (simp add: same_ci_def)
  have ls: "\<not> is_space ?N" "\<not> is_space ?I" "\<not> is_space ?K"
    by (simp_all add: is_space_def)
  have "clean_text (pre @ [?N, ?I, ?K]) = pre' @ [?N, ?I, ?K]"
    unfolding pre'_def by (rule clean_before_label[OF ls])
  with assms(1) have p1: "rx_exec_group rx_nik_label rx_nik_group (pre' @ [?N, ?I, ?K]) = None"
    by (simp add: label_found_def l)
  have p2: "no_digit_head post'"
    unfolding post'_def
    by (intro no_digit_head_trim_right no_digit_head_squeeze assms(2))
  have "rx_exec_group rx_nik_label rx_nik_group (pre' @ ?N # ?I # ?K # ?r @ post')
      = rx_exec_group rx_nik_label rx_nik_group (?N # ?I # ?K # ?r @ post')"
    by (rule exec_group_first_label[OF N p1])
  then have "rx_exec_group rx_nik_label rx_nik_group (pre' @ ?m @ post')
      = rx_exec_group rx_nik_label rx_nik_group (?m @ post')"
    by (simp only: ml append_Cons)
  with capture_scenario[OF p2] c
  have g: "rx_exec_group rx_nik_label rx_nik_group (clean_text (pre @ ?m @ post))
      = Some (str ''3201 0145 0390 0021'')" by simp
  have f: "filter is_digit (str ''3201 0145 0390 0021'') = str ''3201014503900021''"
    by (simp add: str_def is_digit_def)
  have len: "length (str ''3201014503900021'') = 16" by (simp add: str_def)
  from m(1) have "pre @ ?m @ post \<noteq> []" by simp
  with method1_capture[OF g] f len show ?thesis
    by (simp add: extractNIK_def)
qed

theorem extractNIK_scenario_witness:
  "\<not> label_found (str ''PROVINSI JAWA BARAT '' @ str ''NIK'')
   \<and> no_digit_head (str '' Nama'')
   \<and> extractNIK (str ''PROVINSI JAWA BARAT '' @ str ''NIK: 3201 0145 0390 0021'' @ str '' Nama'')
       = Some (str ''3201014503900021'')"
proof -
  have h1: "\<not> label_found (str ''PROVINSI JAWA BARAT '' @ str ''NIK'')"
    by (simp add: label_found_def ev)
  have h2: "no_digit_head (str '' Nama'')"
    by (simp add: no_digit_head_def str_def is_digit_def)
  from extractNIK_scenario[OF h1 h2] h1 h2 show ?thesis by simp
qed

text \<open>
  C4 as stated fails: both texts contain \<open>NIK: 3201 0145 0390 0021\<close>. In the first the
  number after the earlier label is returned. In the second the digit \<open>9\<close> that follows is
  drawn into the capture, which then has 17 digits, and method 2 returns the first run of
  the text.
\<close>

theorem extractNIK_substring_not_enough:
  "extractNIK (str ''NIK 1111111111111111 NIK: 3201 0145 0390 0021'')
     = Some (str ''1111111111111111'')
   \<and> extractNIK (str ''1111111111111111 NIK: 3201 0145 0390 00219'')
     = Some (str ''1111111111111111'')"
  by (simp add: ev)

text \<open>
  C5. When the only digits of the text are one run of exactly 17 digits and the letters
  \<open>NIK\<close>, in any case, occur nowhere in a row, \<open>extractNIK\<close> returns the first 16
  digits of the run: method 1 finds no label, method 2 matches the whole run and keeps its
  first 16 digits.
\<close>

theorem extractNIK_seventeen_digits:
  assumes "length ds = 17" "list_all is_digit ds"
    and "list_all (\<lambda>c. \<not> is_digit c) pre" "list_all (\<lambda>c. \<not> is_digit c) post"
    and "\<not> has_nik (pre @ ds @ post)"
  shows "extractNIK (pre @ ds @ post) = Some (take 16 ds)"
proof -
  let ?text = "pre @ ds @ post"
  define pre' where "pre' = dropWhile is_space (squeeze is_space [0x20] (squeeze is_nlcr [0x20] pre))"
  define post' where
    "post' = rev (dropWhile is_space (rev (squeeze is_space [0x20] (squeeze is_nlcr [0x20] post))))"
  from assms(1) have ne: "ds \<noteq> []" by auto
  with assms(2) have "is_digit (hd ds)" "is_digit (last ds)" by (auto simp: list_all_iff)
  then have hl: "\<not> is_space (hd ds)" "\<not> is_space (last ds)"
    using digit_not_space by blast+
  from assms(2) have "list_all (\<lambda>c. \<not> is_space c) ds" "list_all (\<lambda>c. \<not> is_nlcr c) ds"
    using digit_not_space nlcr_space by (auto simp: list_all_iff)
  then have k: "squeeze is_nlcr [0x20] ds = ds" "squeeze is_space [0x20] ds = ds"
    by (simp_all add: squeeze_keep)
  have c: "clean_text ?text = pre' @ ds @ post'"
    unfolding pre'_def post'_def by (rule clean_around[OF ne hl k])
  have p1: "list_all (\<lambda>c. \<not> is_digit c) pre'"
    unfolding pre'_def by (rule no_digit_cleaned_left[OF assms(3)])
  have p2: "list_all (\<lambda>c. \<not> is_digit c) post'"
    unfolding post'_def by (rule no_digit_cleaned_right[OF assms(4)])
  from assms(5) have "\<not> has_nik (clean_text ?text)" using has_nik_clean by blast
  then have m1: "method1 (clean_text ?text) = None"
    using method1_label by (cases "method1 (clean_text ?text)") auto
  from match_all_17[OF assms(1,2) p1 p2] obtain ms where
    ms: "rx_match_all rx_digit_run (pre' @ ds @ post') = ds # ms" by blast
  from assms(2) have f: "filter is_digit ds = ds" by (simp add: list_all_iff)
  from assms(1,2) have "is_nik16 (take 16 ds)"
    by (simp add: is_nik16_iff list_all_iff) (meson in_set_takeD)
  then have t: "rx_test_full rx_d16 (take 16 ds)" by (simp add: is_nik16_def)
  from assms(1) f t have m2: "method2 (ds # ms) = Some (take 16 ds)"
    by (simp add: strip_non_digits is_nik16_iff)
  from ne m1 m2 ms c show ?thesis
    by (simp add: extractNIK_def)
qed

theorem extractNIK_seventeen_digits_witness:
  "length (str ''12345678901234567'') = 17 \<and> list_all is_digit (str ''12345678901234567'')
   \<and> list_all (\<lambda>c. \<not> is_digit c) (str ''No. '') \<and> list_all (\<lambda>c. \<not> is_digit c) (str '' Jakarta'')
   \<and> \<not> has_nik (str ''No. '' @ str ''12345678901234567'' @ str '' Jakarta'')
   \<and> extractNIK (str ''No. '' @ str ''12345678901234567'' @ str '' Jakarta'')
       = Some (str ''1234567890123456'')"
proof -
  have h1: "length (str ''12345678901234567'') = 17" by (simp add: str_def)
  have h2: "list_all is_digit (str ''12345678901234567'')" by (simp add: str_def is_digit_def)
  have h3: "list_all (\<lambda>c. \<not> is_digit c) (str ''No. '')" by (simp add: str_def is_digit_def)
  have h4: "list_all (\<lambda>c. \<not> is_digit c) (str '' Jakarta'')" by (simp add: str_def is_digit_def)
  have h5: "\<not> has_nik (str ''No. '' @ str ''12345678901234567'' @ str '' Jakarta'')"
    by (simp add: str_def same_ci_def ascii_upper_def)
  have h6: "take 16 (str ''12345678901234567'') = str ''1234567890123456''"
    by (simp add: str_def)
  from extractNIK_seventeen_digits[OF h1 h2 h3 h4 h5] h1 h2 h3 h4 h5 h6 show ?thesis by simp
qed

text \<open>
  C10. The label pattern asks for no word boundary: in this text \<open>nik\<close> occurs only as the
  end of \<open>elektronik\<close>, another 16-digit number comes first, and \<open>extractNIK\<close> returns the
  digits after \<open>elektronik\<close>.
\<close>

theorem extractNIK_label_inside_word:
  "extractNIK (str ''9999999999999999 elektronik 3201014503900021'')
     = Some (str ''3201014503900021'')"
  by (simp add: ev)

section \<open>The claims about compressImage\<close>

text \<open>
  C6. Whatever the encoder does and whatever buffer comes in, the body of the loop of
  \<open>compressImage\<close> is entered at most 5 times; from each state at the head of the loop to
  the next, \<open>attempts\<close> grows by one, \<open>quality\<close> drops by 10 and \<open>maxDimension\<close> becomes
  \<open>floor (maxDimension * 0.9)\<close>, which is smaller; and the function returns: the input when
  the encoder threw, the buffer of the last state otherwise, reached after at most 5
  attempts.
\<close>

theorem compressImage_terminates_within_five:
  "length (filter loop_cond (loop_states sharp (initial imageBuffer))) \<le> 5
   \<and> successively step_ok (loop_states sharp (initial imageBuffer))
   \<and> (case compress_loop sharp (initial imageBuffer) of
        Inl e \<Rightarrow> compressImage sharp imageBuffer = imageBuffer
      | Inr st \<Rightarrow> compressImage sharp imageBuffer = compressed st
                 \<and> st = last (loop_states sharp (initial imageBuffer)) \<and> attempts st \<le> 5)"
proof -
  have a0: "attempts (initial imageBuffer) \<le> maxAttempts"
    by (simp add: initial_def)
  have "length (filter loop_cond (loop_states sharp (initial imageBuffer))) \<le> 5"
    using loop_states_count[OF a0, of sharp] by (simp add: maxAttempts_def)
  moreover have "successively step_ok (loop_states sharp (initial imageBuffer))"
    by (rule loop_states_chain[OF reachable_initial])
  moreover have "(case compress_loop sharp (initial imageBuffer) of
        Inl e \<Rightarrow> compressImage sharp imageBuffer = imageBuffer
      | Inr st \<Rightarrow> compressImage sharp imageBuffer = compressed st
                 \<and> st = last (loop_states sharp (initial imageBuffer)) \<and> attempts st \<le> 5)"
    using compress_loop_last[of sharp "initial imageBuffer"]
      compress_loop_total_attempts[OF a0, of sharp]
    by (auto simp: compressImage_def maxAttempts_def split: sum.splits)
  ultimately show ?thesis by blast
qed

text \<open>
  C7, as the code has it. The loop compares no sizes and keeps whatever the encoder
  returns. Whatever the encoder does, the buffer returned is the input itself (no attempt
  was needed, or the encoder threw), or it has at most \<open>MAX_FILE_SIZE\<close> bytes while the
  input had more, or it is the output of the fifth attempt and still has more than
  \<open>MAX_FILE_SIZE\<close> bytes. So the buffer returned is no larger than the input unless all 5
  attempts were used and the last output still exceeds \<open>MAX_FILE_SIZE\<close>.
\<close>

theorem compressImage_size_of_result:
  "(compressImage sharp imageBuffer = imageBuffer
    \<or> (length (compressImage sharp imageBuffer) \<le> MAX_FILE_SIZE
         \<and> MAX_FILE_SIZE < length imageBuffer)
    \<or> (\<exists>st. compress_loop sharp (initial imageBuffer) = Inr st \<and> attempts st = 5
          \<and> compressImage sharp imageBuffer = compressed st
          \<and> MAX_FILE_SIZE < length (compressed st)))
   \<and> (length (compressImage sharp imageBuffer) \<le> length imageBuffer
    \<or> (\<exists>st. compress_loop sharp (initial imageBuffer) = Inr st \<and> attempts st = 5
          \<and> compressImage sharp imageBuffer = compressed st
          \<and> MAX_FILE_SIZE < length (compressed st)))"
proof -
  let ?five = "\<exists>st. compress_loop sharp (initial imageBuffer) = Inr st \<and> attempts st = 5
          \<and> compressImage sharp imageBuffer = compressed st
          \<and> MAX_FILE_SIZE < length (compressed st)"
  have 1: "compressImage sharp imageBuffer = imageBuffer
    \<or> (length (compressImage sharp imageBuffer) \<le> MAX_FILE_SIZE
         \<and> MAX_FILE_SIZE < length imageBuffer) \<or> ?five"
  proof (cases "compress_loop sharp (initial imageBuffer)")
    case (Inl e)
    then show ?thesis by (simp add: compressImage_def)
  next
    case (Inr st)
    then have r: "compressImage sharp imageBuffer = compressed st"
      by (simp add: compressImage_def)
    have a0: "attempts (initial imageBuffer) \<le> maxAttempts" by (simp add: initial_def)
    from compress_loop_total_attempts[OF a0 Inr] have a: "attempts st \<le> 5"
      by (simp add: maxAttempts_def)
    from compress_loop_exit[OF Inr]
    have e: "length (compressed st) \<le> MAX_FILE_SIZE \<or> 5 \<le> attempts st"
      by (auto simp: loop_cond_def maxAttempts_def)
    show ?thesis
    proof (cases "loop_cond (initial imageBuffer)")
      case False
      with Inr have "st = initial imageBuffer" by (simp add: compress_loop.simps)
      with r show ?thesis by (simp add: initial_def)
    next
      case True
      then have big: "MAX_FILE_SIZE < length imageBuffer" by (simp add: loop_cond_def initial_def)
      show ?thesis
      proof (cases "length (compressed st) \<le> MAX_FILE_SIZE")
        case True
        with big r show ?thesis by simp
      next
        case False
        with e a have "attempts st = 5" by simp
        with False Inr r show ?thesis by simp
      qed
    qed
  qed
  then have "length (compressImage sharp imageBuffer) \<le> length imageBuffer \<or> ?five"
    by auto
  with 1 show ?thesis by blast
qed

text \<open>
  C7 as stated fails for an encoder whose output is longer than its input (a JPEG written
  at quality 80 from a source that was stored more compactly): from an input of 1048577
  bytes the five attempts return 1048582 bytes.
\<close>

theorem compressImage_output_can_grow:
  "length (compressImage (\<lambda>d q b. Inr (0 # b)) (replicate 1048577 0)) = 1048582
   \<and> length (replicate 1048577 (0 :: 8 word)) = 1048577"
  by (simp add: loop_ev)

text \<open>
  C8. \<open>compressImage\<close> has no exceptional result, and when the encoder throws in an
  iteration that the loop enters, the buffer returned is the input buffer itself.
\<close>

theorem compressImage_error_returns_input:
  "list_ex (throws sharp) (loop_states sharp (initial imageBuffer)) \<Longrightarrow>
     compressImage sharp imageBuffer = imageBuffer"
  using compress_loop_fail[of sharp "initial imageBuffer"]
  by (auto simp: compressImage_def split: sum.splits)

theorem compressImage_error_returns_input_witness:
  "list_ex (throws (\<lambda>d q b. Inl SharpError))
     (loop_states (\<lambda>d q b. Inl SharpError) (initial (replicate 1048577 0)))
   \<and> compressImage (\<lambda>d q b. Inl SharpError) (replicate 1048577 0) = replicate 1048577 0"
proof -
  have h: "list_ex (throws (\<lambda>d q b. Inl SharpError))
     (loop_states (\<lambda>d q b. Inl SharpError) (initial (replicate 1048577 0)))"
    by (simp add: loop_ev throws_def)
  from compressImage_error_returns_input[OF h] h show ?thesis by simp
qed

section \<open>The claim about extractKTPInfo\<close>

text \<open>
  C9. For the text \<open>Nama : John Doe\<close>, a line feed, \<open>Tempat Lahir: Jakarta\<close>, the name
  that \<open>extractKTPInfo\<close> returns is \<open>John Doe\<close>; there the capture stops at the line
  feed. When \<open>Tempat Lahir: Jakarta\<close> stands on the line of the name, the capture is the
  rest of the line, \<open>split\<close> cuts it before \<open>Tempat\<close> and \<open>trim\<close> removes the space
  that is left, so the name is \<open>John Doe\<close> again. With two spaces around the name and a
  carriage return before the line feed, the capture keeps what follows the name and \<open>trim\<close>
  removes it.
\<close>

theorem extractKTPInfo_john_doe:
  "extractKTPInfo (str ''Nama : John Doe'' @ [0x0A] @ str ''Tempat Lahir: Jakarta'')
       = \<lparr>nama = Some (str ''John Doe'')\<rparr>
   \<and> rx_exec_group rx_nama_label rx_nama_group
       (str ''Nama : John Doe'' @ [0x0A] @ str ''Tempat Lahir: Jakarta'') = Some (str ''John Doe'')
   \<and> extractKTPInfo (str ''Nama : John Doe Tempat Lahir: Jakarta'')
       = \<lparr>nama = Some (str ''John Doe'')\<rparr>
   \<and> rx_exec_group rx_nama_label rx_nama_group (str ''Nama : John Doe Tempat Lahir: Jakarta'')
       = Some (str ''John Doe Tempat Lahir: Jakarta'')
   \<and> rx_split rx_fields (str ''John Doe Tempat Lahir: Jakarta'')
       = [str ''John Doe '', str '' Lahir: Jakarta'']
   \<and> extractKTPInfo (str ''Nama :  John Doe  '' @ [0x0D, 0x0A] @ str ''Tempat Lahir: Jakarta'')
       = \<lparr>nama = Some (str ''John Doe'')\<rparr>
   \<and> rx_exec_group rx_nama_label rx_nama_group
       (str ''Nama :  John Doe  '' @ [0x0D, 0x0A] @ str ''Tempat Lahir: Jakarta'')
       = Some (str ''John Doe  '' @ [0x0D])"
  by (simp add: ev)

end
